theory Spec2Isabelle
  imports Main "HOL-Library.Word" "HOL-Library.Finite_Map"
begin

section \<open>The data model of \<^verbatim>\<open>smarter.hpp\<close>\<close>

text \<open>
  The header defines a reference counter with a holder chain (\<^verbatim>\<open>counter\<close>), an allocation
  unit \<^verbatim>\<open>meta_object<T>\<close> that has two \<^verbatim>\<open>counter\<close> base subobjects and a \<^verbatim>\<open>box<T>\<close>, and
  the handles \<^verbatim>\<open>shared_ptr\<close> and \<^verbatim>\<open>weak_ptr\<close>.

  Conventions of the embedding.
  \<^item> The heap is an explicit store: a finite map from addresses to \<^verbatim>\<open>meta_object\<close>s. The
    only concrete classes derived from the abstract \<^verbatim>\<open>counter\<close> in the header are the two
    \<^verbatim>\<open>crtp_counter\<close> bases of \<^verbatim>\<open>meta_object\<close>, so a \<^verbatim>\<open>counter *\<close> is the address of a
    \<^verbatim>\<open>meta_object\<close> together with the tag (\<^verbatim>\<open>dispose_memory\<close> or \<^verbatim>\<open>dispose_object\<close>) of the
    base it points to; \<^verbatim>\<open>nullptr\<close> is \<open>None\<close>.
  \<^item> \<^verbatim>\<open>unsigned int\<close> is a 32-bit word; \<^verbatim>\<open>fetch_add\<close> and \<^verbatim>\<open>fetch_sub\<close> wrap.
  \<^item> Every operation runs to completion on its own (one thread); an atomic
    read-modify-write is one update of the store.
  \<^item> \<^verbatim>\<open>assert\<close> is enabled (no \<^verbatim>\<open>NDEBUG\<close>): a failed assertion ends the run with an error
    value. Dereferencing a null or dangling pointer and destructing a box that holds no
    object have no defined behaviour in C++; the model ends the run with an error value
    there as well.
  \<^item> \<^verbatim>\<open>new\<close> never fails and never hands out an address twice; the constructor and the
    destructor of the value type \<^verbatim>\<open>T\<close> have no effect on the store of counters.
  \<^item> The heap carries a log of the events executed so far, in program order. The log is
    bookkeeping of the model: no operation reads it.
\<close>

type_synonym addr = nat

datatype facet = dispose_memory | dispose_object

type_synonym ctr_ptr = "addr \<times> facet"

text \<open>\<^verbatim>\<open>struct counter\<close>: the fields \<^verbatim>\<open>_holder\<close> and \<^verbatim>\<open>_count\<close>.\<close>

record counter =
  holder :: "ctr_ptr option"
  count :: "32 word"

text \<open>\<^verbatim>\<open>box<T>\<close>: the state of the aligned storage \<^verbatim>\<open>_stor\<close>.\<close>

datatype 'v box = Uninitialized | Constructed 'v | Destructed

text \<open>
  \<^verbatim>\<open>meta_object<T>\<close>: the base \<^verbatim>\<open>crtp_counter<meta_object, dispose_memory>\<close>, the base
  \<^verbatim>\<open>crtp_counter<meta_object, dispose_object>\<close> and the member \<^verbatim>\<open>_bx\<close>.
\<close>

record 'v meta_object =
  memory_base :: counter
  object_base :: counter
  bx :: "'v box"

datatype event =
    Ev_new addr
  | Ev_construct addr
  | Ev_destruct addr
  | Ev_delete addr
  | Ev_fetch_add ctr_ptr
  | Ev_fetch_sub ctr_ptr
  | Ev_compare_exchange ctr_ptr
  | Ev_dispose ctr_ptr

record 'v heap =
  cells :: "(addr, 'v meta_object) fmap"
  next_addr :: addr
  trace :: "event list"

datatype error =
    Assert_increment ctr_ptr
  | Assert_decrement ctr_ptr
  | Assert_destroy ctr_ptr
  | Assert_holder ctr_ptr
  | Null_pointer
  | Dangling_pointer addr
  | No_object addr
  | No_such_member string
  | No_such_handle

text \<open>
  \<open>Assert_increment\<close> is the \<^verbatim>\<open>assert(count)\<close> of \<^verbatim>\<open>counter::increment\<close>,
  \<open>Assert_decrement\<close> the \<^verbatim>\<open>assert(count == 1)\<close> of \<^verbatim>\<open>counter::decrement\<close>,
  \<open>Assert_destroy\<close> the \<^verbatim>\<open>assert(!_count.load(...))\<close> of \<^verbatim>\<open>counter::~counter\<close>,
  \<open>Assert_holder\<close> the \<^verbatim>\<open>assert(_ctr->holder())\<close> of \<^verbatim>\<open>weak_ptr\<close>. Each carries the
  counter on which it failed. \<open>Null_pointer\<close>, \<open>Dangling_pointer\<close> and \<open>No_object\<close> are
  the undefined behaviours named above. \<open>No_such_member\<close> is a member access that names no
  member of the class. \<open>No_such_handle\<close> is used only by the client programs further down:
  a statement that names a handle that does not exist.
\<close>

definition log_event :: "event \<Rightarrow> 'v heap \<Rightarrow> 'v heap" where
  "log_event e s = s\<lparr>trace := trace s @ [e]\<rparr>"

definition base_of :: "facet \<Rightarrow> 'v meta_object \<Rightarrow> counter" where
  "base_of f mo = (case f of dispose_memory \<Rightarrow> memory_base mo | dispose_object \<Rightarrow> object_base mo)"

definition set_base :: "facet \<Rightarrow> counter \<Rightarrow> 'v meta_object \<Rightarrow> 'v meta_object" where
  "set_base f c mo =
     (case f of dispose_memory \<Rightarrow> mo\<lparr>memory_base := c\<rparr>
              | dispose_object \<Rightarrow> mo\<lparr>object_base := c\<rparr>)"

text \<open>Reading and writing the counter behind a \<^verbatim>\<open>counter *\<close>.\<close>

definition get_ctr :: "'v heap \<Rightarrow> ctr_ptr \<Rightarrow> counter option" where
  "get_ctr s p = map_option (base_of (snd p)) (fmlookup (cells s) (fst p))"

definition put_ctr :: "ctr_ptr \<Rightarrow> counter \<Rightarrow> 'v heap \<Rightarrow> 'v heap" where
  "put_ctr p c s =
     (case fmlookup (cells s) (fst p) of
        None \<Rightarrow> s
      | Some mo \<Rightarrow> s\<lparr>cells := fmupd (fst p) (set_base (snd p) c mo) (cells s)\<rparr>)"

section \<open>\<^verbatim>\<open>counter\<close>\<close>

text \<open>\<^verbatim>\<open>counter *holder()\<close>.\<close>

definition holder_of :: "'v heap \<Rightarrow> ctr_ptr \<Rightarrow> error + ctr_ptr option" where
  "holder_of s p =
     (case get_ctr s p of
        None \<Rightarrow> Inl (Dangling_pointer (fst p))
      | Some c \<Rightarrow> Inr (holder c))"

text \<open>\<^verbatim>\<open>unsigned int check_count()\<close>.\<close>

definition check_count :: "'v heap \<Rightarrow> ctr_ptr \<Rightarrow> error + 32 word" where
  "check_count s p =
     (case get_ctr s p of
        None \<Rightarrow> Inl (Dangling_pointer (fst p))
      | Some c \<Rightarrow> Inr (count c))"

text \<open>
  \<^verbatim>\<open>void increment()\<close>: \<^verbatim>\<open>fetch_add(1)\<close> returns the previous count, which the assertion
  then tests.
\<close>

definition increment :: "'v heap \<Rightarrow> ctr_ptr \<Rightarrow> error + 'v heap" where
  "increment s p =
     (case get_ctr s p of
        None \<Rightarrow> Inl (Dangling_pointer (fst p))
      | Some c \<Rightarrow>
          let s1 = log_event (Ev_fetch_add p) (put_ctr p (c\<lparr>count := count c + 1\<rparr>) s)
          in if count c = 0 then Inl (Assert_increment p) else Inr s1)"

text \<open>
  \<^verbatim>\<open>compare_exchange_strong(expected, desired)\<close>: the result is the success flag, the
  value left in \<^verbatim>\<open>expected\<close>, and the store.
\<close>

definition compare_exchange_strong ::
  "'v heap \<Rightarrow> ctr_ptr \<Rightarrow> 32 word \<Rightarrow> 32 word \<Rightarrow> error + (bool \<times> 32 word \<times> 'v heap)" where
  "compare_exchange_strong s p expected desired =
     (case get_ctr s p of
        None \<Rightarrow> Inl (Dangling_pointer (fst p))
      | Some c \<Rightarrow>
          if count c = expected
          then Inr (True, expected,
                    log_event (Ev_compare_exchange p) (put_ctr p (c\<lparr>count := desired\<rparr>) s))
          else Inr (False, count c, s))"

text \<open>
  The \<^verbatim>\<open>do ... while\<close> loop of \<^verbatim>\<open>increment_if_nonzero\<close>, started with the value read by the
  relaxed load.
\<close>

function increment_if_nonzero_loop ::
  "'v heap \<Rightarrow> ctr_ptr \<Rightarrow> 32 word \<Rightarrow> error + (bool \<times> 'v heap)" where
  "increment_if_nonzero_loop s p cnt =
     (if cnt = 0 then Inr (False, s)
      else (case compare_exchange_strong s p cnt (cnt + 1) of
              Inl e \<Rightarrow> Inl e
            | Inr (ok, observed, s') \<Rightarrow>
                if ok then Inr (True, s') else increment_if_nonzero_loop s' p observed))"
  by pat_completeness auto
termination
  by (relation "measure (\<lambda>(s, p, cnt). if map_option count (get_ctr s p) = Some cnt then 0 else 1)")
    (auto simp: compare_exchange_strong_def split: option.splits if_splits)

definition increment_if_nonzero :: "'v heap \<Rightarrow> ctr_ptr \<Rightarrow> error + (bool \<times> 'v heap)" where
  "increment_if_nonzero s p =
     (case get_ctr s p of
        None \<Rightarrow> Inl (Dangling_pointer (fst p))
      | Some c \<Rightarrow> increment_if_nonzero_loop s p (count c))"

section \<open>\<^verbatim>\<open>box\<close> and the two \<^verbatim>\<open>dispose\<close> overloads of \<^verbatim>\<open>meta_object\<close>\<close>

text \<open>\<^verbatim>\<open>box::construct\<close>: placement-new of \<^verbatim>\<open>T{args...}\<close> into the storage.\<close>

definition construct :: "('a \<Rightarrow> 'v) \<Rightarrow> 'a \<Rightarrow> 'v box \<Rightarrow> 'v box" where
  "construct T args b = Constructed (T args)"

text \<open>\<^verbatim>\<open>box::destruct\<close>: the destructor call on the stored object.\<close>

definition destruct :: "'v box \<Rightarrow> 'v box option" where
  "destruct b = (case b of Constructed v \<Rightarrow> Some Destructed | _ \<Rightarrow> None)"

text \<open>\<^verbatim>\<open>void dispose(dispose_object) { _bx.destruct(); }\<close>\<close>

definition dispose_object_impl :: "'v heap \<Rightarrow> addr \<Rightarrow> error + 'v heap" where
  "dispose_object_impl s m =
     (case fmlookup (cells s) m of
        None \<Rightarrow> Inl (Dangling_pointer m)
      | Some mo \<Rightarrow>
          (case destruct (bx mo) of
             None \<Rightarrow> Inl (No_object m)
           | Some b \<Rightarrow>
               Inr (log_event (Ev_destruct m) (s\<lparr>cells := fmupd m (mo\<lparr>bx := b\<rparr>) (cells s)\<rparr>))))"

text \<open>
  \<^verbatim>\<open>void dispose(dispose_memory) { delete this; }\<close> The destructor of \<^verbatim>\<open>meta_object\<close> runs
  \<^verbatim>\<open>~counter()\<close> on both bases, in reverse order of declaration, each with its
  \<^verbatim>\<open>assert(!_count.load(...))\<close>; the box has no destructor of its own.
\<close>

definition dispose_memory_impl :: "'v heap \<Rightarrow> addr \<Rightarrow> error + 'v heap" where
  "dispose_memory_impl s m =
     (case fmlookup (cells s) m of
        None \<Rightarrow> Inl (Dangling_pointer m)
      | Some mo \<Rightarrow>
          if count (object_base mo) \<noteq> 0 then Inl (Assert_destroy (m, dispose_object))
          else if count (memory_base mo) \<noteq> 0 then Inl (Assert_destroy (m, dispose_memory))
          else Inr (log_event (Ev_delete m) (s\<lparr>cells := fmdrop m (cells s)\<rparr>)))"

text \<open>
  \<^verbatim>\<open>crtp_counter<D, A>::dispose()\<close>: the virtual call lands in the base the pointer points
  to, which forwards to \<^verbatim>\<open>d->dispose(A{})\<close>.
\<close>

definition dispose :: "'v heap \<Rightarrow> ctr_ptr \<Rightarrow> error + 'v heap" where
  "dispose s p =
     (case snd p of
        dispose_object \<Rightarrow> dispose_object_impl (log_event (Ev_dispose p) s) (fst p)
      | dispose_memory \<Rightarrow> dispose_memory_impl (log_event (Ev_dispose p) s) (fst p))"

text \<open>
  The counters of a store whose count is one. Every recursive call of \<^verbatim>\<open>decrement\<close> has
  taken one of them to zero, which is why the recursion ends on every store, whatever
  the holder pointers are.
\<close>

definition ones :: "'v heap \<Rightarrow> ctr_ptr set" where
  "ones s = {p. \<exists>c. get_ctr s p = Some c \<and> count c = 1}"

lemma facet_UNIV: "(UNIV :: facet set) = {dispose_memory, dispose_object}"
  using facet.exhaust by auto

lemma get_ctr_log_event [simp]: "get_ctr (log_event e s) p = get_ctr s p"
  by (simp add: get_ctr_def log_event_def)

lemma get_ctr_put_ctr:
  assumes "get_ctr s p = Some c0"
  shows "get_ctr (put_ctr p c s) q = (if q = p then Some c else get_ctr s q)"
proof -
  obtain mo where mo: "fmlookup (cells s) (fst p) = Some mo"
    using assms by (auto simp: get_ctr_def)
  show ?thesis
    using mo
    by (cases "snd p"; cases "snd q")
      (auto simp: get_ctr_def put_ctr_def base_of_def set_base_def prod_eq_iff)
qed

lemma get_ctr_dispose_object_impl:
  "dispose_object_impl s m = Inr s' \<Longrightarrow> get_ctr s' q = get_ctr s q"
  by (cases "snd q")
    (auto simp: dispose_object_impl_def get_ctr_def log_event_def base_of_def
      split: option.splits)

lemma get_ctr_dispose_memory_impl:
  "dispose_memory_impl s m = Inr s' \<Longrightarrow>
   get_ctr s' q = (if fst q = m then None else get_ctr s q)"
  by (auto simp: dispose_memory_impl_def get_ctr_def log_event_def
      split: option.splits if_splits)

lemma get_ctr_dispose:
  assumes "dispose s p = Inr s'"
  shows "get_ctr s' q = (if snd p = dispose_memory \<and> fst q = fst p then None else get_ctr s q)"
proof (cases "snd p")
  case dispose_memory
  with assms have "dispose_memory_impl (log_event (Ev_dispose p) s) (fst p) = Inr s'"
    by (simp add: dispose_def)
  from get_ctr_dispose_memory_impl [OF this] dispose_memory show ?thesis
    by simp
next
  case dispose_object
  with assms have "dispose_object_impl (log_event (Ev_dispose p) s) (fst p) = Inr s'"
    by (simp add: dispose_def)
  from get_ctr_dispose_object_impl [OF this] dispose_object show ?thesis
    by simp
qed

lemma finite_ones: "finite (ones s)"
proof -
  have "ones s \<subseteq> fmdom' (cells s) \<times> UNIV"
    by (auto simp: ones_def get_ctr_def fmdom'I)
  moreover have "finite (fmdom' (cells s) \<times> (UNIV :: facet set))"
    by (simp add: facet_UNIV)
  ultimately show ?thesis
    by (rule finite_subset)
qed

lemma ones_log_event [simp]: "ones (log_event e s) = ones s"
  by (simp add: ones_def)

lemma ones_dispose: "dispose s p = Inr s' \<Longrightarrow> ones s' \<subseteq> ones s"
  by (auto simp: ones_def get_ctr_dispose split: if_splits)

lemma ones_put_zero:
  assumes "get_ctr s p = Some c" and "count c = 1"
  shows "ones (put_ctr p (c\<lparr>count := 0\<rparr>) s) \<subset> ones s"
proof -
  have "p \<in> ones s"
    using assms by (auto simp: ones_def)
  moreover have "p \<notin> ones (put_ctr p (c\<lparr>count := 0\<rparr>) s)"
    using assms by (auto simp: ones_def get_ctr_put_ctr)
  moreover have "ones (put_ctr p (c\<lparr>count := 0\<rparr>) s) \<subseteq> ones s"
    using assms by (auto simp: ones_def get_ctr_put_ctr split: if_splits)
  ultimately show ?thesis by blast
qed

text \<open>
  \<^verbatim>\<open>void decrement()\<close>: \<^verbatim>\<open>fetch_sub(1)\<close> returns the previous count; \<^verbatim>\<open>_holder\<close> is loaded
  before \<^verbatim>\<open>dispose()\<close>, and the recursion goes to the holder that was loaded.
\<close>

function decrement :: "'v heap \<Rightarrow> ctr_ptr \<Rightarrow> error + 'v heap" where
  "decrement s p =
     (case get_ctr s p of
        None \<Rightarrow> Inl (Dangling_pointer (fst p))
      | Some c \<Rightarrow>
          let s1 = log_event (Ev_fetch_sub p) (put_ctr p (c\<lparr>count := count c - 1\<rparr>) s)
          in if count c > 1 then Inr s1
             else if count c \<noteq> 1 then Inl (Assert_decrement p)
             else
               let h = holder c
               in (case dispose s1 p of
                     Inl e \<Rightarrow> Inl e
                   | Inr s2 \<Rightarrow>
                       (case h of
                          None \<Rightarrow> Inr s2
                        | Some hp \<Rightarrow> decrement s2 hp)))"
  by pat_completeness auto
termination
proof (relation "measure (\<lambda>(s, p). card (ones s))")
  show "wf (measure (\<lambda>(s :: 'v heap, p :: ctr_ptr). card (ones s)))"
    by simp
next
  fix s :: "'v heap" and p :: ctr_ptr and c s1 h s2 hp
  assume c: "get_ctr s p = Some c"
    and s1: "s1 = log_event (Ev_fetch_sub p) (put_ctr p (c\<lparr>count := count c - 1\<rparr>) s)"
    and one: "\<not> count c \<noteq> 1"
    and d: "dispose s1 p = Inr s2"
  have "ones s2 \<subseteq> ones s1"
    using d by (rule ones_dispose)
  moreover have "ones s1 \<subset> ones s"
    using ones_put_zero [OF c] one s1 by simp
  ultimately have "ones s2 \<subset> ones s"
    by blast
  then have "card (ones s2) < card (ones s)"
    by (rule psubset_card_mono [OF finite_ones])
  then show "((s2, hp), (s, p)) \<in> measure (\<lambda>(s, p). card (ones s))"
    by simp
qed

section \<open>\<^verbatim>\<open>meta_object\<close> and \<^verbatim>\<open>make_shared\<close>\<close>

text \<open>\<^verbatim>\<open>counter(adopt_rc_t, counter *holder, unsigned int initial_count)\<close>.\<close>

definition counter_adopt :: "ctr_ptr option \<Rightarrow> 32 word \<Rightarrow> counter" where
  "counter_adopt h initial_count = \<lparr>holder = h, count = initial_count\<rparr>"

text \<open>\<^verbatim>\<open>counter *memory_ctr()\<close>, \<^verbatim>\<open>counter *object_ctr()\<close> and \<^verbatim>\<open>T *get()\<close> of \<^verbatim>\<open>meta_object\<close>.\<close>

definition memory_ctr :: "addr \<Rightarrow> ctr_ptr" where
  "memory_ctr m = (m, dispose_memory)"

definition object_ctr :: "addr \<Rightarrow> ctr_ptr" where
  "object_ctr m = (m, dispose_object)"

definition meta_get :: "addr \<Rightarrow> addr" where
  "meta_get m = m"

text \<open>
  \<^verbatim>\<open>new meta_object<T>{initial_count, args...}\<close>: the allocation, then the constructor: the
  \<^verbatim>\<open>dispose_memory\<close> base with \<^verbatim>\<open>{adopt_rc, nullptr, 1}\<close>, the \<^verbatim>\<open>dispose_object\<close> base with
  the \<^verbatim>\<open>dispose_memory\<close> base of \<^verbatim>\<open>this\<close> as holder and \<^verbatim>\<open>initial_count\<close>, then
  \<^verbatim>\<open>_bx.construct(args...)\<close>. The result is the address of the new object.
\<close>

definition new_meta_object ::
  "32 word \<Rightarrow> ('a \<Rightarrow> 'v) \<Rightarrow> 'a \<Rightarrow> 'v heap \<Rightarrow> addr \<times> 'v heap" where
  "new_meta_object initial_count T args s =
     (let this = next_addr s;
          s1 = log_event (Ev_new this) (s\<lparr>next_addr := Suc this\<rparr>);
          mo = \<lparr>memory_base = counter_adopt None 1,
                object_base = counter_adopt (Some (memory_ctr this)) initial_count,
                bx = Uninitialized\<rparr>;
          mo' = mo\<lparr>bx := construct T args (bx mo)\<rparr>
      in (this, log_event (Ev_construct this) (s1\<lparr>cells := fmupd this mo' (cells s1)\<rparr>)))"

section \<open>\<^verbatim>\<open>shared_ptr\<close>\<close>

text \<open>
  The fields \<^verbatim>\<open>_object\<close> and \<^verbatim>\<open>_ctr\<close>. A \<^verbatim>\<open>T *\<close> is the address of the \<^verbatim>\<open>meta_object\<close> whose
  box holds the value (or the image of that address under a pointer conversion).
\<close>

record shared_ptr =
  s_object :: "addr option"
  s_ctr :: "ctr_ptr option"

text \<open>\<^verbatim>\<open>shared_ptr()\<close> and \<^verbatim>\<open>shared_ptr(std::nullptr_t)\<close>.\<close>

definition shared_ptr_null :: shared_ptr where
  "shared_ptr_null = \<lparr>s_object = None, s_ctr = None\<rparr>"

text \<open>\<^verbatim>\<open>shared_ptr(adopt_rc_t, T *object, counter *ctr)\<close>.\<close>

definition shared_ptr_adopt :: "addr option \<Rightarrow> ctr_ptr option \<Rightarrow> shared_ptr" where
  "shared_ptr_adopt obj c = \<lparr>s_object = obj, s_ctr = c\<rparr>"

text \<open>\<^verbatim>\<open>friend void swap(shared_ptr &x, shared_ptr &y)\<close>: the new \<open>x\<close> and the new \<open>y\<close>.\<close>

definition shared_ptr_swap :: "shared_ptr \<Rightarrow> shared_ptr \<Rightarrow> shared_ptr \<times> shared_ptr" where
  "shared_ptr_swap x y =
     (x\<lparr>s_object := s_object y, s_ctr := s_ctr y\<rparr>, y\<lparr>s_object := s_object x, s_ctr := s_ctr x\<rparr>)"

text \<open>\<^verbatim>\<open>shared_ptr(const shared_ptr &other)\<close>: the new handle and the store.\<close>

definition shared_ptr_copy :: "'v heap \<Rightarrow> shared_ptr \<Rightarrow> error + (shared_ptr \<times> 'v heap)" where
  "shared_ptr_copy s other =
     (let this = \<lparr>s_object = s_object other, s_ctr = s_ctr other\<rparr>
      in case s_ctr this of
           None \<Rightarrow> Inr (this, s)
         | Some p \<Rightarrow> (case increment s p of Inl e \<Rightarrow> Inl e | Inr s' \<Rightarrow> Inr (this, s')))"

text \<open>\<^verbatim>\<open>shared_ptr(shared_ptr &&other)\<close>: the new handle and what is left in \<open>other\<close>.\<close>

definition shared_ptr_move :: "shared_ptr \<Rightarrow> shared_ptr \<times> shared_ptr" where
  "shared_ptr_move other = shared_ptr_swap shared_ptr_null other"

text \<open>\<^verbatim>\<open>~shared_ptr()\<close>.\<close>

definition shared_ptr_destroy :: "'v heap \<Rightarrow> shared_ptr \<Rightarrow> error + 'v heap" where
  "shared_ptr_destroy s this =
     (case s_ctr this of
        None \<Rightarrow> Inr s
      | Some p \<Rightarrow> decrement s p)"

text \<open>
  \<^verbatim>\<open>shared_ptr &operator= (shared_ptr other)\<close>: the swap, then the destructor of the
  by-value parameter.
\<close>

definition shared_ptr_assign ::
  "'v heap \<Rightarrow> shared_ptr \<Rightarrow> shared_ptr \<Rightarrow> error + (shared_ptr \<times> 'v heap)" where
  "shared_ptr_assign s this other =
     (case shared_ptr_swap this other of
        (this', other') \<Rightarrow>
          (case shared_ptr_destroy s other' of Inl e \<Rightarrow> Inl e | Inr s' \<Rightarrow> Inr (this', s')))"

text \<open>\<^verbatim>\<open>operator bool\<close>, \<^verbatim>\<open>get()\<close> and \<^verbatim>\<open>ctr()\<close>.\<close>

definition shared_ptr_bool :: "shared_ptr \<Rightarrow> bool" where
  "shared_ptr_bool this = (s_object this \<noteq> None)"

definition shared_ptr_get :: "shared_ptr \<Rightarrow> addr option" where
  "shared_ptr_get this = s_object this"

definition shared_ptr_ctr :: "shared_ptr \<Rightarrow> ctr_ptr option" where
  "shared_ptr_ctr this = s_ctr this"

text \<open>\<^verbatim>\<open>std::pair<T *, counter *> release()\<close>: the pair and what is left in the handle.\<close>

definition release :: "shared_ptr \<Rightarrow> (addr option \<times> ctr_ptr option) \<times> shared_ptr" where
  "release this = ((s_object this, s_ctr this), this\<lparr>s_object := None, s_ctr := None\<rparr>)"

text \<open>
  \<^verbatim>\<open>static_pointer_cast<X>(shared_ptr<T, H> other)\<close>. The parameter is taken by value: the
  function owns \<open>other\<close> and runs its destructor on return. \<open>conv\<close> is what
  \<^verbatim>\<open>static_cast<X *>\<close> does to a non-null address.
\<close>

definition static_pointer_cast ::
  "(addr \<Rightarrow> addr) \<Rightarrow> 'v heap \<Rightarrow> shared_ptr \<Rightarrow> error + (shared_ptr \<times> 'v heap)" where
  "static_pointer_cast conv s other =
     (case release other of
        ((obj, c), other') \<Rightarrow>
          let r = shared_ptr_adopt (map_option conv obj) c
          in (case shared_ptr_destroy s other' of Inl e \<Rightarrow> Inl e | Inr s' \<Rightarrow> Inr (r, s')))"

text \<open>
  \<^verbatim>\<open>handle_cast(shared_ptr<T, L> other)\<close>: the two \<^verbatim>\<open>std::swap\<close>s into the local \<open>p\<close>, the
  move of \<open>p\<close> into the result, then the destructors of \<open>p\<close> and of the parameter.
\<close>

definition handle_cast :: "'v heap \<Rightarrow> shared_ptr \<Rightarrow> error + (shared_ptr \<times> 'v heap)" where
  "handle_cast s other =
     (let p = shared_ptr_null;
          p1 = p\<lparr>s_object := s_object other, s_ctr := s_ctr other\<rparr>;
          other1 = other\<lparr>s_object := s_object p, s_ctr := s_ctr p\<rparr>
      in case shared_ptr_move p1 of
           (r, p2) \<Rightarrow>
             (case shared_ptr_destroy s p2 of
                Inl e \<Rightarrow> Inl e
              | Inr s1 \<Rightarrow>
                  (case shared_ptr_destroy s1 other1 of
                     Inl e \<Rightarrow> Inl e
                   | Inr s2 \<Rightarrow> Inr (r, s2))))"

text \<open>
  A call of a cast. Both casts take the handle by value, so the call first initialises the
  parameter \<open>other\<close> from the argument \<open>p\<close>: with the copy constructor when the argument is
  an lvalue, as in \<^verbatim>\<open>static_pointer_cast<X>(p)\<close>, and with the move constructor when it is an
  rvalue, as in \<^verbatim>\<open>static_pointer_cast<X>(std::move(p))\<close>. The result is the handle the cast
  returns, the caller's handle \<open>p\<close> after the call, and the store.
\<close>

definition static_pointer_cast_lvalue ::
  "(addr \<Rightarrow> addr) \<Rightarrow> 'v heap \<Rightarrow> shared_ptr \<Rightarrow> error + (shared_ptr \<times> shared_ptr \<times> 'v heap)" where
  "static_pointer_cast_lvalue conv s p =
     (case shared_ptr_copy s p of
        Inl e \<Rightarrow> Inl e
      | Inr (other, s1) \<Rightarrow>
          (case static_pointer_cast conv s1 other of
             Inl e \<Rightarrow> Inl e
           | Inr (r, s2) \<Rightarrow> Inr (r, p, s2)))"

definition static_pointer_cast_rvalue ::
  "(addr \<Rightarrow> addr) \<Rightarrow> 'v heap \<Rightarrow> shared_ptr \<Rightarrow> error + (shared_ptr \<times> shared_ptr \<times> 'v heap)" where
  "static_pointer_cast_rvalue conv s p =
     (case shared_ptr_move p of
        (other, p') \<Rightarrow>
          (case static_pointer_cast conv s other of
             Inl e \<Rightarrow> Inl e
           | Inr (r, s') \<Rightarrow> Inr (r, p', s')))"

definition handle_cast_lvalue ::
  "'v heap \<Rightarrow> shared_ptr \<Rightarrow> error + (shared_ptr \<times> shared_ptr \<times> 'v heap)" where
  "handle_cast_lvalue s p =
     (case shared_ptr_copy s p of
        Inl e \<Rightarrow> Inl e
      | Inr (other, s1) \<Rightarrow>
          (case handle_cast s1 other of
             Inl e \<Rightarrow> Inl e
           | Inr (r, s2) \<Rightarrow> Inr (r, p, s2)))"

definition handle_cast_rvalue ::
  "'v heap \<Rightarrow> shared_ptr \<Rightarrow> error + (shared_ptr \<times> shared_ptr \<times> 'v heap)" where
  "handle_cast_rvalue s p =
     (case shared_ptr_move p of
        (other, p') \<Rightarrow>
          (case handle_cast s other of
             Inl e \<Rightarrow> Inl e
           | Inr (r, s') \<Rightarrow> Inr (r, p', s')))"

text \<open>\<^verbatim>\<open>make_shared<T>(args...)\<close>.\<close>

definition make_shared :: "('a \<Rightarrow> 'v) \<Rightarrow> 'a \<Rightarrow> 'v heap \<Rightarrow> shared_ptr \<times> 'v heap" where
  "make_shared T args s =
     (case new_meta_object 1 T args s of
        (meta, s') \<Rightarrow> (shared_ptr_adopt (Some (meta_get meta)) (Some (object_ctr meta)), s'))"

section \<open>\<^verbatim>\<open>weak_ptr\<close>\<close>

record weak_ptr =
  w_object :: "addr option"
  w_ctr :: "ctr_ptr option"

text \<open>\<^verbatim>\<open>weak_ptr()\<close>.\<close>

definition weak_ptr_null :: weak_ptr where
  "weak_ptr_null = \<lparr>w_object = None, w_ctr = None\<rparr>"

definition weak_ptr_swap :: "weak_ptr \<Rightarrow> weak_ptr \<Rightarrow> weak_ptr \<times> weak_ptr" where
  "weak_ptr_swap x y =
     (x\<lparr>w_object := w_object y, w_ctr := w_ctr y\<rparr>, y\<lparr>w_object := w_object x, w_ctr := w_ctr x\<rparr>)"

text \<open>
  \<^verbatim>\<open>weak_ptr(const shared_ptr<T, H> &ptr)\<close> (and its twin for \<^verbatim>\<open>shared_ptr<X, H>\<close>, which
  has the same body). \<^verbatim>\<open>_ctr->holder()\<close> is evaluated for the assertion and again for the
  call; the store does not change in between, so it is read once here.
\<close>

definition weak_ptr_from_shared :: "'v heap \<Rightarrow> shared_ptr \<Rightarrow> error + (weak_ptr \<times> 'v heap)" where
  "weak_ptr_from_shared s ptr =
     (let this = \<lparr>w_object = shared_ptr_get ptr, w_ctr = shared_ptr_ctr ptr\<rparr>
      in case w_ctr this of
           None \<Rightarrow> Inl Null_pointer
         | Some p \<Rightarrow>
             (case holder_of s p of
                Inl e \<Rightarrow> Inl e
              | Inr None \<Rightarrow> Inl (Assert_holder p)
              | Inr (Some h) \<Rightarrow>
                  (case increment s h of Inl e \<Rightarrow> Inl e | Inr s' \<Rightarrow> Inr (this, s'))))"

text \<open>
  \<^verbatim>\<open>weak_ptr(const weak_ptr &other) : _object{other.object}, _ctr{other.ctr} { ... }\<close>.
  The two initializers access \<open>other\<close> by member name. The members of \<^verbatim>\<open>weak_ptr\<close> are
  \<^verbatim>\<open>_object\<close> and \<^verbatim>\<open>_ctr\<close>, and it has no base class; \<open>weak_ptr_member\<close> is the lookup of a
  name in the class. Where the lookup finds nothing there is no constructor to run.
\<close>

datatype member = Object_member "addr option" | Ctr_member "ctr_ptr option"

definition weak_ptr_member :: "weak_ptr \<Rightarrow> string \<Rightarrow> member option" where
  "weak_ptr_member this name =
     (if name = ''_object'' then Some (Object_member (w_object this))
      else if name = ''_ctr'' then Some (Ctr_member (w_ctr this))
      else None)"

definition weak_ptr_copy :: "'v heap \<Rightarrow> weak_ptr \<Rightarrow> error + (weak_ptr \<times> 'v heap)" where
  "weak_ptr_copy s other =
     (case weak_ptr_member other ''object'' of
        Some (Object_member obj) \<Rightarrow>
          (case weak_ptr_member other ''ctr'' of
             Some (Ctr_member c) \<Rightarrow>
               (let this = \<lparr>w_object = obj, w_ctr = c\<rparr>
                in case w_ctr this of
                     None \<Rightarrow> Inr (this, s)
                   | Some p \<Rightarrow>
                       (case holder_of s p of
                          Inl e \<Rightarrow> Inl e
                        | Inr None \<Rightarrow> Inl (Assert_holder p)
                        | Inr (Some h) \<Rightarrow>
                            (case increment s h of Inl e \<Rightarrow> Inl e | Inr s' \<Rightarrow> Inr (this, s'))))
           | _ \<Rightarrow> Inl (No_such_member ''ctr''))
      | _ \<Rightarrow> Inl (No_such_member ''object''))"

text \<open>\<^verbatim>\<open>weak_ptr(weak_ptr &&other)\<close>.\<close>

definition weak_ptr_move :: "weak_ptr \<Rightarrow> weak_ptr \<times> weak_ptr" where
  "weak_ptr_move other = weak_ptr_swap weak_ptr_null other"

text \<open>\<^verbatim>\<open>~weak_ptr()\<close>.\<close>

definition weak_ptr_destroy :: "'v heap \<Rightarrow> weak_ptr \<Rightarrow> error + 'v heap" where
  "weak_ptr_destroy s this =
     (case w_ctr this of
        None \<Rightarrow> Inr s
      | Some p \<Rightarrow>
          (case holder_of s p of
             Inl e \<Rightarrow> Inl e
           | Inr None \<Rightarrow> Inl (Assert_holder p)
           | Inr (Some h) \<Rightarrow> decrement s h))"

text \<open>\<^verbatim>\<open>weak_ptr &operator= (weak_ptr other)\<close>.\<close>

definition weak_ptr_assign ::
  "'v heap \<Rightarrow> weak_ptr \<Rightarrow> weak_ptr \<Rightarrow> error + (weak_ptr \<times> 'v heap)" where
  "weak_ptr_assign s this other =
     (case weak_ptr_swap this other of
        (this', other') \<Rightarrow>
          (case weak_ptr_destroy s other' of Inl e \<Rightarrow> Inl e | Inr s' \<Rightarrow> Inr (this', s')))"

text \<open>\<^verbatim>\<open>shared_ptr<T, H> lock() const\<close>.\<close>

definition lock :: "'v heap \<Rightarrow> weak_ptr \<Rightarrow> error + (shared_ptr \<times> 'v heap)" where
  "lock s this =
     (case w_ctr this of
        None \<Rightarrow> Inr (shared_ptr_null, s)
      | Some p \<Rightarrow>
          (case increment_if_nonzero s p of
             Inl e \<Rightarrow> Inl e
           | Inr (ok, s') \<Rightarrow>
               if \<not> ok then Inr (shared_ptr_null, s')
               else Inr (shared_ptr_adopt (w_object this) (Some p), s')))"

section \<open>Client programs over handle variables\<close>

text \<open>
  A world is the store together with the \<^verbatim>\<open>shared_ptr\<close> and \<^verbatim>\<open>weak_ptr\<close> objects that are
  alive: those whose constructor has returned and whose destructor has not run. An
  operation is one statement of a client; a number names a live handle by its position.
  The statements are the factory and the constructors, copies, moves, assignments and
  destructors of the two handle types, and \<^verbatim>\<open>lock()\<close>. \<^verbatim>\<open>release()\<close> and the adopting
  constructor on a raw pair are not among the statements: between the two calls the claim
  is held by no handle at all. Neither is the copy constructor of \<^verbatim>\<open>weak_ptr\<close>, which names
  members that \<^verbatim>\<open>weak_ptr\<close> does not have.
\<close>

record 'v world =
  store :: "'v heap"
  strong :: "shared_ptr list"
  weak :: "weak_ptr list"

datatype 'a op =
    Make 'a
  | Strong_null
  | Strong_copy nat
  | Strong_move nat
  | Strong_assign nat nat
  | Strong_move_assign nat nat
  | Strong_destroy nat
  | Weak_null
  | Weak_from_strong nat
  | Weak_move nat
  | Weak_move_assign nat nat
  | Weak_destroy nat
  | Lock nat

definition remove_nth :: "nat \<Rightarrow> 'h list \<Rightarrow> 'h list" where
  "remove_nth i xs = take i xs @ drop (Suc i) xs"

definition init_world :: "'v world" where
  "init_world = \<lparr>store = \<lparr>cells = fmempty, next_addr = 0, trace = []\<rparr>, strong = [], weak = []\<rparr>"

text \<open>
  \<open>Make args\<close> is \<^verbatim>\<open>shared_ptr<T> p = make_shared<T>(args);\<close>,
  \<open>Strong_null\<close> is \<^verbatim>\<open>shared_ptr<T> p;\<close>,
  \<open>Strong_copy i\<close> is \<^verbatim>\<open>shared_ptr<T> p{x_i};\<close>,
  \<open>Strong_move i\<close> is \<^verbatim>\<open>shared_ptr<T> p{std::move(x_i)};\<close>,
  \<open>Strong_assign i j\<close> is \<^verbatim>\<open>x_i = x_j;\<close> (the parameter of \<^verbatim>\<open>operator=\<close> is copied from \<open>x_j\<close>),
  \<open>Strong_move_assign i j\<close> is \<^verbatim>\<open>x_i = std::move(x_j);\<close>,
  \<open>Strong_destroy i\<close> ends the lifetime of \<open>x_i\<close>;
  \<open>Weak_null\<close> is \<^verbatim>\<open>weak_ptr<T> w;\<close>,
  \<open>Weak_from_strong i\<close> is \<^verbatim>\<open>weak_ptr<T> w{x_i};\<close>,
  \<open>Weak_move k\<close> is \<^verbatim>\<open>weak_ptr<T> w{std::move(w_k)};\<close>,
  \<open>Weak_move_assign k l\<close> is \<^verbatim>\<open>w_k = std::move(w_l);\<close>,
  \<open>Weak_destroy k\<close> ends the lifetime of \<open>w_k\<close>,
  \<open>Lock k\<close> is \<^verbatim>\<open>shared_ptr<T> p = w_k.lock();\<close>.
  A new handle goes to the end of its list.
\<close>

fun step :: "('a \<Rightarrow> 'v) \<Rightarrow> 'v world \<Rightarrow> 'a op \<Rightarrow> error + 'v world" where
  "step T w (Make args) =
     (case make_shared T args (store w) of
        (p, s') \<Rightarrow> Inr (w\<lparr>store := s', strong := strong w @ [p]\<rparr>))"
| "step T w Strong_null = Inr (w\<lparr>strong := strong w @ [shared_ptr_null]\<rparr>)"
| "step T w (Strong_copy i) =
     (if i < length (strong w)
      then (case shared_ptr_copy (store w) (strong w ! i) of
              Inl e \<Rightarrow> Inl e
            | Inr (p, s') \<Rightarrow> Inr (w\<lparr>store := s', strong := strong w @ [p]\<rparr>))
      else Inl No_such_handle)"
| "step T w (Strong_move i) =
     (if i < length (strong w)
      then (case shared_ptr_move (strong w ! i) of
              (p, other') \<Rightarrow> Inr (w\<lparr>strong := (strong w)[i := other'] @ [p]\<rparr>))
      else Inl No_such_handle)"
| "step T w (Strong_assign i j) =
     (if i < length (strong w) \<and> j < length (strong w)
      then (case shared_ptr_copy (store w) (strong w ! j) of
              Inl e \<Rightarrow> Inl e
            | Inr (other, s1) \<Rightarrow>
                (case shared_ptr_assign s1 (strong w ! i) other of
                   Inl e \<Rightarrow> Inl e
                 | Inr (this', s2) \<Rightarrow> Inr (w\<lparr>store := s2, strong := (strong w)[i := this']\<rparr>)))
      else Inl No_such_handle)"
| "step T w (Strong_move_assign i j) =
     (if i < length (strong w) \<and> j < length (strong w)
      then (case shared_ptr_move (strong w ! j) of
              (other, xj) \<Rightarrow>
                (case shared_ptr_assign (store w) ((strong w)[j := xj] ! i) other of
                   Inl e \<Rightarrow> Inl e
                 | Inr (this', s') \<Rightarrow>
                     Inr (w\<lparr>store := s', strong := (strong w)[j := xj, i := this']\<rparr>)))
      else Inl No_such_handle)"
| "step T w (Strong_destroy i) =
     (if i < length (strong w)
      then (case shared_ptr_destroy (store w) (strong w ! i) of
              Inl e \<Rightarrow> Inl e
            | Inr s' \<Rightarrow> Inr (w\<lparr>store := s', strong := remove_nth i (strong w)\<rparr>))
      else Inl No_such_handle)"
| "step T w Weak_null = Inr (w\<lparr>weak := weak w @ [weak_ptr_null]\<rparr>)"
| "step T w (Weak_from_strong i) =
     (if i < length (strong w)
      then (case weak_ptr_from_shared (store w) (strong w ! i) of
              Inl e \<Rightarrow> Inl e
            | Inr (p, s') \<Rightarrow> Inr (w\<lparr>store := s', weak := weak w @ [p]\<rparr>))
      else Inl No_such_handle)"
| "step T w (Weak_move k) =
     (if k < length (weak w)
      then (case weak_ptr_move (weak w ! k) of
              (p, other') \<Rightarrow> Inr (w\<lparr>weak := (weak w)[k := other'] @ [p]\<rparr>))
      else Inl No_such_handle)"
| "step T w (Weak_move_assign k l) =
     (if k < length (weak w) \<and> l < length (weak w)
      then (case weak_ptr_move (weak w ! l) of
              (other, wl) \<Rightarrow>
                (case weak_ptr_assign (store w) ((weak w)[l := wl] ! k) other of
                   Inl e \<Rightarrow> Inl e
                 | Inr (this', s') \<Rightarrow>
                     Inr (w\<lparr>store := s', weak := (weak w)[l := wl, k := this']\<rparr>)))
      else Inl No_such_handle)"
| "step T w (Weak_destroy k) =
     (if k < length (weak w)
      then (case weak_ptr_destroy (store w) (weak w ! k) of
              Inl e \<Rightarrow> Inl e
            | Inr s' \<Rightarrow> Inr (w\<lparr>store := s', weak := remove_nth k (weak w)\<rparr>))
      else Inl No_such_handle)"
| "step T w (Lock k) =
     (if k < length (weak w)
      then (case lock (store w) (weak w ! k) of
              Inl e \<Rightarrow> Inl e
            | Inr (p, s') \<Rightarrow> Inr (w\<lparr>store := s', strong := strong w @ [p]\<rparr>))
      else Inl No_such_handle)"

fun run :: "('a \<Rightarrow> 'v) \<Rightarrow> 'a op list \<Rightarrow> 'v world \<Rightarrow> error + 'v world" where
  "run T [] w = Inr w"
| "run T (x # xs) w = (case step T w x of Inl e \<Rightarrow> Inl e | Inr w' \<Rightarrow> run T xs w')"

text \<open>The number of handles in a list whose counter pointer is the object counter of \<open>m\<close>.\<close>

definition handles_on :: "('h \<Rightarrow> ctr_ptr option) \<Rightarrow> 'h list \<Rightarrow> addr \<Rightarrow> nat" where
  "handles_on c xs m = length (filter (\<lambda>h. c h = Some (object_ctr m)) xs)"

definition strong_count :: "'v world \<Rightarrow> addr \<Rightarrow> nat" where
  "strong_count w = handles_on s_ctr (strong w)"

definition weak_count :: "'v world \<Rightarrow> addr \<Rightarrow> nat" where
  "weak_count w = handles_on w_ctr (weak w)"

text \<open>The events of the log that allocate, construct, destruct or delete \<open>m\<close>.\<close>

definition lifecycle :: "addr \<Rightarrow> event list \<Rightarrow> event list" where
  "lifecycle m evs =
     filter (\<lambda>e. e = Ev_new m \<or> e = Ev_construct m \<or> e = Ev_destruct m \<or> e = Ev_delete m) evs"

section \<open>Concrete inputs\<close>

definition empty_heap :: "nat heap" where
  "empty_heap = \<lparr>cells = fmempty, next_addr = 0, trace = []\<rparr>"

text \<open>
  The store after \<^verbatim>\<open>auto p = make_shared<T>(6); weak_ptr<T> w{p};\<close> (with \<open>T = Suc\<close>, so the
  value is 7): one \<^verbatim>\<open>shared_ptr\<close> and one \<^verbatim>\<open>weak_ptr\<close> are alive.
\<close>

definition live_object_heap :: "nat heap" where
  "live_object_heap =
     \<lparr>cells = fmupd 0
        \<lparr>memory_base = \<lparr>holder = None, count = 2\<rparr>,
         object_base = \<lparr>holder = Some (0, dispose_memory), count = 1\<rparr>,
         bx = Constructed 7\<rparr> fmempty,
      next_addr = 1,
      trace = [Ev_new 0, Ev_construct 0, Ev_fetch_add (0, dispose_memory)]\<rparr>"

text \<open>
  The store after \<^verbatim>\<open>auto p = make_shared<T>(6); weak_ptr<T> w{p};\<close> and the end of the
  lifetime of \<open>p\<close>: the value is gone, the allocation is kept by \<open>w\<close>.
\<close>

definition dead_object_heap :: "nat heap" where
  "dead_object_heap =
     \<lparr>cells = fmupd 0
        \<lparr>memory_base = \<lparr>holder = None, count = 1\<rparr>,
         object_base = \<lparr>holder = Some (0, dispose_memory), count = 0\<rparr>,
         bx = Destructed\<rparr> fmempty,
      next_addr = 1,
      trace = [Ev_new 0, Ev_construct 0, Ev_fetch_add (0, dispose_memory),
               Ev_fetch_sub (0, dispose_object), Ev_dispose (0, dispose_object), Ev_destruct 0,
               Ev_fetch_sub (0, dispose_memory)]\<rparr>"

text \<open>
  The world after \<^verbatim>\<open>auto p = make_shared<T>(6);\<close> (with \<open>T = Suc\<close>, so the value is 7) and
  \<open>j\<close> copies of \<open>p\<close>.
\<close>

definition copies_world :: "nat \<Rightarrow> nat world" where
  "copies_world j =
     \<lparr>store = \<lparr>cells = fmupd 0
                 \<lparr>memory_base = \<lparr>holder = None, count = 1\<rparr>,
                  object_base = \<lparr>holder = Some (0, dispose_memory), count = of_nat (Suc j)\<rparr>,
                  bx = Constructed 7\<rparr> fmempty,
               next_addr = 1,
               trace = [Ev_new 0, Ev_construct 0] @ replicate j (Ev_fetch_add (0, dispose_object))\<rparr>,
      strong = replicate (Suc j) \<lparr>s_object = Some 0, s_ctr = Some (0, dispose_object)\<rparr>,
      weak = []\<rparr>"

section \<open>The invariant that ties counts to live handles\<close>

text \<open>
  \<open>cell_st s m n j\<close>: the allocation \<open>m\<close> is in the state that belongs to \<open>n\<close> claims on its
  object counter and \<open>j\<close> claims on its memory counter. Counts are \<^verbatim>\<open>unsigned int\<close>, so they
  agree with the numbers of claims as 32-bit words; the numbers themselves never exceed
  \<open>2^32\<close>. While the allocation exists the memory counter has a claim; as long as there is a
  claim on the object counter the box holds the value and the log has the allocation and
  the construction of \<open>m\<close> and nothing else about \<open>m\<close>; with no claim on the object counter
  the value has been destructed. Once the allocation is gone there are no claims, and the
  log has, in this order, the allocation, the construction, the destruction and the
  deletion of \<open>m\<close>.
\<close>

definition cell_st :: "'v heap \<Rightarrow> addr \<Rightarrow> nat \<Rightarrow> nat \<Rightarrow> bool" where
  "cell_st s m n j \<longleftrightarrow>
     n \<le> 2 ^ 32 \<and> j \<le> 2 ^ 32 \<and>
     (case fmlookup (cells s) m of
        None \<Rightarrow>
          n = 0 \<and> j = 0 \<and>
          lifecycle m (trace s) = [Ev_new m, Ev_construct m, Ev_destruct m, Ev_delete m]
      | Some mo \<Rightarrow>
          holder (memory_base mo) = None \<and>
          holder (object_base mo) = Some (memory_ctr m) \<and>
          count (object_base mo) = of_nat n \<and>
          count (memory_base mo) = of_nat j \<and>
          0 < j \<and>
          (if 0 < n
           then (\<exists>v. bx mo = Constructed v) \<and>
                lifecycle m (trace s) = [Ev_new m, Ev_construct m]
           else bx mo = Destructed \<and>
                lifecycle m (trace s) = [Ev_new m, Ev_construct m, Ev_destruct m]))"

text \<open>The claim on the memory counter that the object counter holds while it is not zero.\<close>

definition latent :: "nat \<Rightarrow> nat" where
  "latent n = (if 0 < n then 1 else 0)"

text \<open>
  \<open>heap_ok s N K\<close>: every allocation made so far is in the state that belongs to \<open>N m\<close>
  strong claims and \<open>K m\<close> weak claims plus the latent one; addresses not handed out yet
  have no allocation, no events and no claims.
\<close>

definition heap_ok :: "'v heap \<Rightarrow> (addr \<Rightarrow> nat) \<Rightarrow> (addr \<Rightarrow> nat) \<Rightarrow> bool" where
  "heap_ok s N K \<longleftrightarrow>
     (\<forall>m. m < next_addr s \<longrightarrow> cell_st s m (N m) (K m + latent (N m))) \<and>
     (\<forall>m. next_addr s \<le> m \<longrightarrow>
        fmlookup (cells s) m = None \<and> lifecycle m (trace s) = [] \<and> N m = 0 \<and> K m = 0)"

text \<open>An operation on \<open>m\<close> leaves every other allocation and its events alone.\<close>

definition same_elsewhere :: "'v heap \<Rightarrow> 'v heap \<Rightarrow> addr \<Rightarrow> bool" where
  "same_elsewhere s s' m \<longleftrightarrow>
     next_addr s' = next_addr s \<and>
     (\<forall>m'. m' \<noteq> m \<longrightarrow>
        fmlookup (cells s') m' = fmlookup (cells s) m' \<and>
        lifecycle m' (trace s') = lifecycle m' (trace s))"

text \<open>
  What a handle with counter pointer \<open>c\<close> contributes to the claims on \<open>m\<close>, and the
  handles that \<^verbatim>\<open>make_shared\<close>, copies, moves and \<^verbatim>\<open>lock()\<close> produce: null, or on an object
  counter.
\<close>

definition claim :: "ctr_ptr option \<Rightarrow> addr \<Rightarrow> nat" where
  "claim c m = (if c = Some (object_ctr m) then 1 else 0)"

definition on_object :: "ctr_ptr option \<Rightarrow> bool" where
  "on_object c \<longleftrightarrow> (\<forall>p. c = Some p \<longrightarrow> snd p = dispose_object)"

text \<open>
  \<open>world_ok w\<close>: the store is in the state that belongs to the live handles of \<open>w\<close>.
\<close>

definition world_ok :: "'v world \<Rightarrow> bool" where
  "world_ok w \<longleftrightarrow>
     heap_ok (store w) (strong_count w) (weak_count w) \<and>
     (\<forall>h \<in> set (strong w). on_object (s_ctr h)) \<and>
     (\<forall>x \<in> set (weak w). on_object (w_ctr x))"

section \<open>Basic facts about the store\<close>

declare decrement.simps [simp del]

lemma trace_log_event [simp]: "trace (log_event e s) = trace s @ [e]"
  by (simp add: log_event_def)

lemma cells_log_event [simp]: "cells (log_event e s) = cells s"
  by (simp add: log_event_def)

lemma next_addr_log_event [simp]: "next_addr (log_event e s) = next_addr s"
  by (simp add: log_event_def)

lemma trace_put_ctr [simp]: "trace (put_ctr p c s) = trace s"
  by (simp add: put_ctr_def split: option.splits)

lemma next_addr_put_ctr [simp]: "next_addr (put_ctr p c s) = next_addr s"
  by (simp add: put_ctr_def split: option.splits)

lemma word_not_gt_one: "\<not> 1 < (w :: 32 word) \<Longrightarrow> w \<noteq> 0 \<Longrightarrow> w = 1"
  using linorder_less_linear word_less_1 by blast

lemma increment_if_nonzero_eq:
  assumes "get_ctr s p = Some c"
  shows "increment_if_nonzero s p =
     (if count c = 0 then Inr (False, s)
      else Inr (True, log_event (Ev_compare_exchange p) (put_ctr p (c\<lparr>count := count c + 1\<rparr>) s)))"
  using assms by (simp add: increment_if_nonzero_def compare_exchange_strong_def)

lemma dispose_trace:
  "dispose s p = Inr s' \<Longrightarrow>
   trace s' = trace s @ [Ev_dispose p,
      (case snd p of dispose_object \<Rightarrow> Ev_destruct (fst p) | dispose_memory \<Rightarrow> Ev_delete (fst p))]"
  by (auto simp: dispose_def dispose_object_impl_def dispose_memory_impl_def
      split: facet.splits option.splits if_splits)

lemma decrement_zero:
  "get_ctr s p = Some c \<Longrightarrow> count c = 0 \<Longrightarrow> decrement s p = Inl (Assert_decrement p)"
  by (simp add: decrement.simps Let_def)

lemma decrement_many:
  "get_ctr s p = Some c \<Longrightarrow> 1 < count c \<Longrightarrow>
   decrement s p = Inr (log_event (Ev_fetch_sub p) (put_ctr p (c\<lparr>count := count c - 1\<rparr>) s))"
  by (simp add: decrement.simps Let_def)

lemma decrement_one:
  "get_ctr s p = Some c \<Longrightarrow> count c = 1 \<Longrightarrow>
   decrement s p =
     (case dispose (log_event (Ev_fetch_sub p) (put_ctr p (c\<lparr>count := 0\<rparr>) s)) p of
        Inl e \<Rightarrow> Inl e
      | Inr s2 \<Rightarrow> (case holder c of None \<Rightarrow> Inr s2 | Some hp \<Rightarrow> decrement s2 hp))"
  by (simp add: decrement.simps Let_def)

text \<open>
  A run of \<open>decrement\<close> that returns has logged its \<^verbatim>\<open>fetch_sub\<close> first, and has disposed
  only counters whose count was one when it started.
\<close>

lemma decrement_disposes_ones:
  "decrement s q = Inr s' \<Longrightarrow>
   \<exists>evs. trace s' = trace s @ Ev_fetch_sub q # evs \<and>
         (\<forall>r. Ev_dispose r \<in> set evs \<longrightarrow> (\<exists>c. get_ctr s r = Some c \<and> count c = 1))"
proof (induction s q arbitrary: s' rule: decrement.induct)
  case (1 s p)
  from "1.prems" obtain c where c: "get_ctr s p = Some c"
    by (auto simp: decrement.simps [of s p] split: option.splits)
  from "1.prems" c have nz: "count c \<noteq> 0"
    by (auto simp: decrement_zero)
  show ?case
  proof (cases "1 < count c")
    case True
    with "1.prems" c show ?thesis
      by (auto simp: decrement_many)
  next
    case False
    from False nz have one: "count c = 1"
      by (rule word_not_gt_one)
    define s1 where "s1 = log_event (Ev_fetch_sub p) (put_ctr p (c\<lparr>count := count c - 1\<rparr>) s)"
    from "1.prems" c one obtain s2 where d: "dispose s1 p = Inr s2"
      and rest: "(case holder c of None \<Rightarrow> Inr s2 | Some hp \<Rightarrow> decrement s2 hp) = Inr s'"
      by (auto simp: decrement_one s1_def split: sum.splits)
    let ?x = "case snd p of dispose_object \<Rightarrow> Ev_destruct (fst p)
               | dispose_memory \<Rightarrow> Ev_delete (fst p)"
    have t2: "trace s2 = trace s @ [Ev_fetch_sub p, Ev_dispose p, ?x]"
      using dispose_trace [OF d] by (simp add: s1_def)
    have g2: "\<And>r cr. get_ctr s2 r = Some cr \<Longrightarrow> count cr = 1 \<Longrightarrow> get_ctr s r = Some cr \<and> r \<noteq> p"
      using c one by (auto simp: get_ctr_dispose [OF d] s1_def get_ctr_put_ctr split: if_splits)
    show ?thesis
    proof (cases "holder c")
      case None
      with rest t2 c one show ?thesis
        by (auto split: facet.splits)
    next
      case (Some hp)
      with rest have dh: "decrement s2 hp = Inr s'" by simp
      from "1.IH" [OF c s1_def False _ refl d Some dh] one
      obtain evs where evs: "trace s' = trace s2 @ Ev_fetch_sub hp # evs"
        and disp: "\<forall>r. Ev_dispose r \<in> set evs \<longrightarrow> (\<exists>c. get_ctr s2 r = Some c \<and> count c = 1)"
        by auto
      let ?evs = "[Ev_dispose p, ?x] @ Ev_fetch_sub hp # evs"
      have "trace s' = trace s @ Ev_fetch_sub p # ?evs"
        using evs t2 by simp
      moreover have "\<exists>c. get_ctr s r = Some c \<and> count c = 1" if "Ev_dispose r \<in> set ?evs" for r
      proof -
        from that consider "r = p" | "Ev_dispose r \<in> set evs"
          by (auto split: facet.splits)
        then show ?thesis
        proof cases
          case 1
          with c one show ?thesis by simp
        next
          case 2
          with disp g2 show ?thesis by blast
        qed
      qed
      ultimately show ?thesis by blast
    qed
  qed
qed

section \<open>Claims about \<^verbatim>\<open>counter\<close>\<close>

text \<open>
  C4. On a counter whose count is zero, \<^verbatim>\<open>increment()\<close> ends in the failed assertion
  \<^verbatim>\<open>assert(count)\<close>, an abort and not a result. On a counter whose count is not zero it
  returns, the count is one more (as an \<^verbatim>\<open>unsigned int\<close>), no other counter has changed,
  and the only event is the one \<^verbatim>\<open>fetch_add\<close>.
\<close>

theorem increment_spec:
  "get_ctr s p = Some c \<Longrightarrow>
     (count c = 0 \<longrightarrow> increment s p = Inl (Assert_increment p)) \<and>
     (count c \<noteq> 0 \<longrightarrow>
        (\<exists>s'. increment s p = Inr s' \<and>
              get_ctr s' p = Some (c\<lparr>count := count c + 1\<rparr>) \<and>
              (\<forall>q. q \<noteq> p \<longrightarrow> get_ctr s' q = get_ctr s q) \<and>
              trace s' = trace s @ [Ev_fetch_add p]))"
  by (simp add: increment_def Let_def get_ctr_put_ctr)

lemma dead_get_obj: "get_ctr dead_object_heap (0, dispose_object) = Some \<lparr>holder = Some (0, dispose_memory), count = 0\<rparr>"
  by (simp add: dead_object_heap_def get_ctr_def base_of_def)

lemma dead_get_mem: "get_ctr dead_object_heap (0, dispose_memory) = Some \<lparr>holder = None, count = 1\<rparr>"
  by (simp add: dead_object_heap_def get_ctr_def base_of_def)

text \<open>
  C4, at concrete inputs: the object counter (count 0) and the memory counter (count 1)
  of \<open>dead_object_heap\<close>.
\<close>

theorem increment_spec_witness:
  "get_ctr dead_object_heap (0, dispose_object) = Some \<lparr>holder = Some (0, dispose_memory), count = 0\<rparr> \<and>
   increment dead_object_heap (0, dispose_object) = Inl (Assert_increment (0, dispose_object)) \<and>
   get_ctr dead_object_heap (0, dispose_memory) = Some \<lparr>holder = None, count = 1\<rparr> \<and>
   (\<exists>s'. increment dead_object_heap (0, dispose_memory) = Inr s' \<and>
         get_ctr s' (0, dispose_memory) = Some \<lparr>holder = None, count = 2\<rparr> \<and>
         (\<forall>q. q \<noteq> (0, dispose_memory) \<longrightarrow> get_ctr s' q = get_ctr dead_object_heap q) \<and>
         trace s' = trace dead_object_heap @ [Ev_fetch_add (0, dispose_memory)])"
  using increment_spec [OF dead_get_obj] increment_spec [OF dead_get_mem]
  by (simp add: dead_get_obj dead_get_mem)

text \<open>
  C1 as stated fails on a counter whose count is zero: there the count after the
  subtraction is \<open>2^32 - 1\<close>, which is not zero, yet \<^verbatim>\<open>decrement()\<close> does not return; it ends
  in the failed assertion \<^verbatim>\<open>assert(count == 1)\<close>.
\<close>

theorem decrement_as_stated_counterexample:
  "get_ctr dead_object_heap (0, dispose_object) = Some \<lparr>holder = Some (0, dispose_memory), count = 0\<rparr> \<and>
   (0 :: 32 word) - 1 \<noteq> 0 \<and>
   decrement dead_object_heap (0, dispose_object) = Inl (Assert_decrement (0, dispose_object))"
  by (simp add: dead_get_obj decrement_zero [OF dead_get_obj])

text \<open>
  C1, amended to counters whose count is not zero. \<^verbatim>\<open>decrement()\<close> subtracts one. If the
  new count is not zero it returns and has done nothing else. If the new count is zero,
  it calls \<^verbatim>\<open>dispose()\<close> on the store after the subtraction and then, when the holder read
  from the counter before \<^verbatim>\<open>dispose()\<close> is not null, \<^verbatim>\<open>decrement()\<close> on that holder. A run
  that returns has logged, in this order: its \<^verbatim>\<open>fetch_sub\<close>, its \<^verbatim>\<open>dispose\<close> with the one
  event \<open>d\<close> of the disposal action (the destruction of the value or the deletion of the
  allocation), and then nothing when there is no holder, or the
  events of the holder's \<^verbatim>\<open>decrement()\<close>, which start with the holder's \<^verbatim>\<open>fetch_sub\<close> and do
  not dispose this counter again.
\<close>

theorem decrement_spec:
  assumes "get_ctr s p = Some c" and "count c \<noteq> 0"
  shows "let s1 = log_event (Ev_fetch_sub p) (put_ctr p (c\<lparr>count := count c - 1\<rparr>) s) in
     get_ctr s1 p = Some (c\<lparr>count := count c - 1\<rparr>) \<and>
     (count c - 1 \<noteq> 0 \<longrightarrow> decrement s p = Inr s1) \<and>
     (count c - 1 = 0 \<longrightarrow>
        decrement s p =
          (case dispose s1 p of
             Inl e \<Rightarrow> Inl e
           | Inr s2 \<Rightarrow> (case holder c of None \<Rightarrow> Inr s2 | Some hp \<Rightarrow> decrement s2 hp)) \<and>
        (\<forall>s'. decrement s p = Inr s' \<longrightarrow>
           (\<exists>d evs. trace s' = trace s @ [Ev_fetch_sub p, Ev_dispose p, d] @ evs \<and>
                    (d = Ev_destruct (fst p) \<or> d = Ev_delete (fst p)) \<and>
                    Ev_dispose p \<notin> set evs \<and>
                    (holder c = None \<longrightarrow> evs = []) \<and>
                    (\<forall>hp. holder c = Some hp \<longrightarrow> (\<exists>evs'. evs = Ev_fetch_sub hp # evs')))))"
proof -
  define s1 where "s1 = log_event (Ev_fetch_sub p) (put_ctr p (c\<lparr>count := count c - 1\<rparr>) s)"
  have g1: "get_ctr s1 p = Some (c\<lparr>count := count c - 1\<rparr>)"
    using assms(1) by (simp add: s1_def get_ctr_put_ctr)
  have many: "decrement s p = Inr s1" if "count c - 1 \<noteq> 0"
  proof -
    from that assms(2) have "1 < count c"
      using word_not_gt_one by fastforce
    then show ?thesis
      using assms(1) by (simp add: decrement_many s1_def)
  qed
  have one_eq: "decrement s p =
          (case dispose s1 p of
             Inl e \<Rightarrow> Inl e
           | Inr s2 \<Rightarrow> (case holder c of None \<Rightarrow> Inr s2 | Some hp \<Rightarrow> decrement s2 hp))"
    if "count c - 1 = 0"
    using that assms(1) by (simp add: decrement_one s1_def)
  have one_tr: "\<exists>d evs. trace s' = trace s @ [Ev_fetch_sub p, Ev_dispose p, d] @ evs \<and>
                    (d = Ev_destruct (fst p) \<or> d = Ev_delete (fst p)) \<and>
                    Ev_dispose p \<notin> set evs \<and>
                    (holder c = None \<longrightarrow> evs = []) \<and>
                    (\<forall>hp. holder c = Some hp \<longrightarrow> (\<exists>evs'. evs = Ev_fetch_sub hp # evs'))"
    if one: "count c - 1 = 0" and ret: "decrement s p = Inr s'" for s'
  proof -
    from one have c1: "count c = 1" by simp
    from ret one_eq [OF one] obtain s2 where d: "dispose s1 p = Inr s2"
      and rest: "(case holder c of None \<Rightarrow> Inr s2 | Some hp \<Rightarrow> decrement s2 hp) = Inr s'"
      by (auto split: sum.splits)
    let ?x = "case snd p of dispose_object \<Rightarrow> Ev_destruct (fst p)
               | dispose_memory \<Rightarrow> Ev_delete (fst p)"
    have t2: "trace s2 = trace s @ [Ev_fetch_sub p, Ev_dispose p, ?x]"
      using dispose_trace [OF d] by (simp add: s1_def)
    have x: "?x = Ev_destruct (fst p) \<or> ?x = Ev_delete (fst p)"
      by (simp split: facet.splits)
    have not_one: "\<not> (\<exists>c'. get_ctr s2 p = Some c' \<and> count c' = 1)"
      using g1 c1 by (auto simp: get_ctr_dispose [OF d])
    show ?thesis
    proof (cases "holder c")
      case None
      with rest t2 have "trace s' = trace s @ [Ev_fetch_sub p, Ev_dispose p, ?x] @ []"
        by simp
      with x None show ?thesis by fastforce
    next
      case (Some hp)
      with rest have "decrement s2 hp = Inr s'" by simp
      from decrement_disposes_ones [OF this] obtain evs where
        evs: "trace s' = trace s2 @ Ev_fetch_sub hp # evs"
        and disp: "\<forall>r. Ev_dispose r \<in> set evs \<longrightarrow> (\<exists>c. get_ctr s2 r = Some c \<and> count c = 1)"
        by blast
      from disp not_one have "Ev_dispose p \<notin> set evs" by blast
      then have "Ev_dispose p \<notin> set (Ev_fetch_sub hp # evs)" by simp
      moreover from evs t2
      have "trace s' = trace s @ [Ev_fetch_sub p, Ev_dispose p, ?x] @ (Ev_fetch_sub hp # evs)"
        by simp
      ultimately show ?thesis
        using x Some by fastforce
    qed
  qed
  show ?thesis
    unfolding Let_def s1_def [symmetric]
    using g1 many one_eq one_tr by blast
qed


text \<open>
  C1 (amended), at a concrete input: the memory counter of \<open>dead_object_heap\<close>, count 1,
  no holder. The allocation is deleted.
\<close>

theorem decrement_spec_witness:
  "get_ctr dead_object_heap (0, dispose_memory) = Some \<lparr>holder = None, count = 1\<rparr> \<and>
   (1 :: 32 word) \<noteq> 0 \<and>
   decrement dead_object_heap (0, dispose_memory) =
     Inr \<lparr>cells = fmempty, next_addr = 1,
          trace = trace dead_object_heap @
            [Ev_fetch_sub (0, dispose_memory), Ev_dispose (0, dispose_memory), Ev_delete 0]\<rparr>"
proof -
  let ?p = "(0 :: nat, dispose_memory)"
  let ?s1 = "log_event (Ev_fetch_sub ?p)
      (put_ctr ?p (\<lparr>holder = None, count = 1\<rparr>\<lparr>count := 0\<rparr>) dead_object_heap)"
  have eq: "decrement dead_object_heap ?p = (case dispose ?s1 ?p of Inl e \<Rightarrow> Inl e | Inr s2 \<Rightarrow> Inr s2)"
    using decrement_spec [OF dead_get_mem] by (auto simp: Let_def split: sum.splits)
  have "dispose ?s1 ?p =
     Inr \<lparr>cells = fmempty, next_addr = 1,
          trace = trace dead_object_heap @
            [Ev_fetch_sub (0, dispose_memory), Ev_dispose (0, dispose_memory), Ev_delete 0]\<rparr>"
    by (simp add: dispose_def dispose_memory_impl_def put_ctr_def set_base_def log_event_def
        dead_object_heap_def fmdrop_fmupd_same)
  with eq show ?thesis
    by (simp add: dead_get_mem)
qed

text \<open>
  C10. On a counter whose count is zero, \<^verbatim>\<open>decrement()\<close> ends in the failed assertion
  \<^verbatim>\<open>assert(count == 1)\<close>; the wrapped count is never used. On a counter whose count is not
  zero, the previous count is greater than one or equal to one, so the run continues
  as the code does without the assertion; with no holder to cascade to, the result is
  never that assertion failure.
\<close>

theorem decrement_zero_asserts:
  assumes "get_ctr s p = Some c"
  shows "(count c = 0 \<longrightarrow> decrement s p = Inl (Assert_decrement p)) \<and>
     (count c \<noteq> 0 \<longrightarrow>
        (1 < count c \<or> count c = 1) \<and>
        decrement s p =
          (let s1 = log_event (Ev_fetch_sub p) (put_ctr p (c\<lparr>count := count c - 1\<rparr>) s)
           in if 1 < count c then Inr s1
              else (case dispose s1 p of
                      Inl e \<Rightarrow> Inl e
                    | Inr s2 \<Rightarrow> (case holder c of None \<Rightarrow> Inr s2 | Some hp \<Rightarrow> decrement s2 hp))) \<and>
        (holder c = None \<longrightarrow> decrement s p \<noteq> Inl (Assert_decrement p)))"
proof (cases "count c = 0")
  case True
  with assms show ?thesis by (simp add: decrement_zero)
next
  case False
  then have cases: "1 < count c \<or> count c = 1"
    using word_not_gt_one by blast
  have eq: "decrement s p =
          (let s1 = log_event (Ev_fetch_sub p) (put_ctr p (c\<lparr>count := count c - 1\<rparr>) s)
           in if 1 < count c then Inr s1
              else (case dispose s1 p of
                      Inl e \<Rightarrow> Inl e
                    | Inr s2 \<Rightarrow> (case holder c of None \<Rightarrow> Inr s2 | Some hp \<Rightarrow> decrement s2 hp)))"
    using cases assms by (auto simp: decrement_many decrement_one Let_def)
  have "decrement s p \<noteq> Inl (Assert_decrement p)" if "holder c = None"
    using cases that assms
    by (auto simp: decrement_many decrement_one dispose_def dispose_object_impl_def
        dispose_memory_impl_def split: sum.splits facet.splits option.splits if_splits)
  with False cases eq show ?thesis by blast
qed

text \<open>C10, at the two counters of \<open>dead_object_heap\<close>.\<close>

theorem decrement_zero_asserts_witness:
  "get_ctr dead_object_heap (0, dispose_object) = Some \<lparr>holder = Some (0, dispose_memory), count = 0\<rparr> \<and>
   decrement dead_object_heap (0, dispose_object) = Inl (Assert_decrement (0, dispose_object)) \<and>
   get_ctr dead_object_heap (0, dispose_memory) = Some \<lparr>holder = None, count = 1\<rparr> \<and>
   decrement dead_object_heap (0, dispose_memory) \<noteq> Inl (Assert_decrement (0, dispose_memory))"
proof -
  have "count \<lparr>holder = Some (0 :: nat, dispose_memory), count = 0 :: 32 word\<rparr> = 0"
    by simp
  with decrement_zero_asserts [OF dead_get_obj]
  have "decrement dead_object_heap (0, dispose_object) = Inl (Assert_decrement (0, dispose_object))"
    by blast
  moreover have "count \<lparr>holder = None :: ctr_ptr option, count = 1 :: 32 word\<rparr> \<noteq> 0"
    and "holder \<lparr>holder = None :: ctr_ptr option, count = 1 :: 32 word\<rparr> = None"
    by simp_all
  with decrement_zero_asserts [OF dead_get_mem]
  have "decrement dead_object_heap (0, dispose_memory) \<noteq> Inl (Assert_decrement (0, dispose_memory))"
    by blast
  ultimately show ?thesis
    by (simp add: dead_get_obj dead_get_mem)
qed

section \<open>Claims about the handles and the factory\<close>

text \<open>
  C5. \<^verbatim>\<open>lock()\<close> on a null \<^verbatim>\<open>weak_ptr\<close> returns the null \<^verbatim>\<open>shared_ptr\<close> (both pointers null) and
  leaves the store as it is. On a \<^verbatim>\<open>weak_ptr\<close> whose counter is in the store and has count
  zero it returns the null \<^verbatim>\<open>shared_ptr\<close> and leaves the store as it is. When the count is
  not zero it returns the handle whose value pointer is the recorded value pointer and
  whose counter pointer is the observed counter; in the store it returns, the count of
  that counter is one more, every other counter is as before, and the log has the one
  successful compare-exchange and nothing else: no \<^verbatim>\<open>fetch_add\<close> follows. \<^verbatim>\<open>lock()\<close> never
  ends in a failed assertion: the only run without a result is the use of a \<^verbatim>\<open>weak_ptr\<close>
  whose counter is no longer allocated, which a \<^verbatim>\<open>weak_ptr\<close> that holds its claim on the
  memory counter excludes.
\<close>

theorem lock_spec:
  "(w_ctr w = None \<longrightarrow> lock s w = Inr (\<lparr>s_object = None, s_ctr = None\<rparr>, s)) \<and>
   (\<forall>p c. w_ctr w = Some p \<and> get_ctr s p = Some c \<longrightarrow>
      (count c = 0 \<longrightarrow> lock s w = Inr (\<lparr>s_object = None, s_ctr = None\<rparr>, s)) \<and>
      (count c \<noteq> 0 \<longrightarrow>
         (\<exists>s'. lock s w = Inr (\<lparr>s_object = w_object w, s_ctr = Some p\<rparr>, s') \<and>
               s' = log_event (Ev_compare_exchange p) (put_ctr p (c\<lparr>count := count c + 1\<rparr>) s) \<and>
               get_ctr s' p = Some (c\<lparr>count := count c + 1\<rparr>) \<and>
               (\<forall>q. q \<noteq> p \<longrightarrow> get_ctr s' q = get_ctr s q) \<and>
               trace s' = trace s @ [Ev_compare_exchange p] \<and>
               next_addr s' = next_addr s))) \<and>
   (\<forall>e. lock s w = Inl e \<longrightarrow>
      (\<exists>p. w_ctr w = Some p \<and> get_ctr s p = None \<and> e = Dangling_pointer (fst p)))"
proof (cases "w_ctr w")
  case None
  then show ?thesis by (simp add: lock_def shared_ptr_null_def)
next
  case (Some p)
  show ?thesis
  proof (cases "get_ctr s p")
    case None
    then have "increment_if_nonzero s p = Inl (Dangling_pointer (fst p))"
      by (simp add: increment_if_nonzero_def)
    with Some None show ?thesis by (auto simp: lock_def)
  next
    case c: (Some c)
    show ?thesis
    proof (cases "count c = 0")
      case True
      with increment_if_nonzero_eq [OF c] Some c show ?thesis
        by (auto simp: lock_def shared_ptr_null_def)
    next
      case False
      let ?s' = "log_event (Ev_compare_exchange p) (put_ctr p (c\<lparr>count := count c + 1\<rparr>) s)"
      from False increment_if_nonzero_eq [OF c] Some
      have l: "lock s w = Inr (\<lparr>s_object = w_object w, s_ctr = Some p\<rparr>, ?s')"
        by (simp add: lock_def shared_ptr_adopt_def)
      have g: "get_ctr ?s' q = (if q = p then Some (c\<lparr>count := count c + 1\<rparr>) else get_ctr s q)" for q
        by (simp add: get_ctr_put_ctr [OF c])
      have "\<exists>s'. lock s w = Inr (\<lparr>s_object = w_object w, s_ctr = Some p\<rparr>, s') \<and>
               s' = ?s' \<and>
               get_ctr s' p = Some (c\<lparr>count := count c + 1\<rparr>) \<and>
               (\<forall>q. q \<noteq> p \<longrightarrow> get_ctr s' q = get_ctr s q) \<and>
               trace s' = trace s @ [Ev_compare_exchange p] \<and>
               next_addr s' = next_addr s"
        using l g by simp
      moreover have "\<forall>e. lock s w \<noteq> Inl e"
        using l by simp
      ultimately show ?thesis
        using Some c False by auto
    qed
  qed
qed

text \<open>
  C5, at concrete inputs: a null \<^verbatim>\<open>weak_ptr\<close>; a \<^verbatim>\<open>weak_ptr\<close> on the object counter of
  \<open>dead_object_heap\<close>, whose count is 0; a \<^verbatim>\<open>weak_ptr\<close> on the object counter of
  \<open>live_object_heap\<close>, whose count goes from 1 to 2; and one whose counter is not allocated.
\<close>

theorem lock_spec_witness:
  "lock dead_object_heap \<lparr>w_object = None, w_ctr = None\<rparr>
     = Inr (\<lparr>s_object = None, s_ctr = None\<rparr>, dead_object_heap) \<and>
   lock dead_object_heap \<lparr>w_object = Some 0, w_ctr = Some (0, dispose_object)\<rparr>
     = Inr (\<lparr>s_object = None, s_ctr = None\<rparr>, dead_object_heap) \<and>
   lock live_object_heap \<lparr>w_object = Some 0, w_ctr = Some (0, dispose_object)\<rparr>
     = Inr (\<lparr>s_object = Some 0, s_ctr = Some (0, dispose_object)\<rparr>,
            \<lparr>cells = fmupd 0
               \<lparr>memory_base = \<lparr>holder = None, count = 2\<rparr>,
                object_base = \<lparr>holder = Some (0, dispose_memory), count = 2\<rparr>,
                bx = Constructed 7\<rparr> fmempty,
             next_addr = 1,
             trace = [Ev_new 0, Ev_construct 0, Ev_fetch_add (0, dispose_memory),
                      Ev_compare_exchange (0, dispose_object)]\<rparr>) \<and>
   lock empty_heap \<lparr>w_object = Some 0, w_ctr = Some (0, dispose_object)\<rparr> = Inl (Dangling_pointer 0)"
proof -
  have a1: "lock dead_object_heap \<lparr>w_object = None, w_ctr = None\<rparr>
     = Inr (\<lparr>s_object = None, s_ctr = None\<rparr>, dead_object_heap)"
    using lock_spec [of "\<lparr>w_object = None, w_ctr = None\<rparr>" dead_object_heap] by simp
  have a2: "lock dead_object_heap \<lparr>w_object = Some 0, w_ctr = Some (0, dispose_object)\<rparr>
     = Inr (\<lparr>s_object = None, s_ctr = None\<rparr>, dead_object_heap)"
    using lock_spec [of "\<lparr>w_object = Some 0, w_ctr = Some (0, dispose_object)\<rparr>" dead_object_heap]
    by (simp add: dead_get_obj)
  have g: "get_ctr live_object_heap (0, dispose_object)
      = Some \<lparr>holder = Some (0, dispose_memory), count = 1\<rparr>"
    by (simp add: live_object_heap_def get_ctr_def base_of_def)
  have s': "log_event (Ev_compare_exchange (0, dispose_object))
       (put_ctr (0, dispose_object) \<lparr>holder = Some (0, dispose_memory), count = 2\<rparr> live_object_heap)
     = \<lparr>cells = fmupd 0
               \<lparr>memory_base = \<lparr>holder = None, count = 2\<rparr>,
                object_base = \<lparr>holder = Some (0, dispose_memory), count = 2\<rparr>,
                bx = Constructed 7\<rparr> fmempty,
             next_addr = 1,
             trace = [Ev_new 0, Ev_construct 0, Ev_fetch_add (0, dispose_memory),
                      Ev_compare_exchange (0, dispose_object)]\<rparr>"
    by (simp add: live_object_heap_def put_ctr_def set_base_def log_event_def)
  have a3: "lock live_object_heap \<lparr>w_object = Some 0, w_ctr = Some (0, dispose_object)\<rparr>
     = Inr (\<lparr>s_object = Some 0, s_ctr = Some (0, dispose_object)\<rparr>,
            \<lparr>cells = fmupd 0
               \<lparr>memory_base = \<lparr>holder = None, count = 2\<rparr>,
                object_base = \<lparr>holder = Some (0, dispose_memory), count = 2\<rparr>,
                bx = Constructed 7\<rparr> fmempty,
             next_addr = 1,
             trace = [Ev_new 0, Ev_construct 0, Ev_fetch_add (0, dispose_memory),
                      Ev_compare_exchange (0, dispose_object)]\<rparr>)"
    using lock_spec [of "\<lparr>w_object = Some 0, w_ctr = Some (0, dispose_object)\<rparr>" live_object_heap]
    by (simp add: g s')
  have a4: "lock empty_heap \<lparr>w_object = Some 0, w_ctr = Some (0, dispose_object)\<rparr> = Inl (Dangling_pointer 0)"
    by (simp add: lock_def increment_if_nonzero_def get_ctr_def empty_heap_def)
  from a1 a2 a3 a4 show ?thesis by simp
qed

text \<open>
  C6. \<^verbatim>\<open>new meta_object<T>{n, args...}\<close> allocates one object, at the address the allocator
  hands out, and changes no other allocation; the new object has the memory counter with
  count 1 and no holder, the object counter with count \<open>n\<close> and the memory counter of the
  same object as holder, and the box holding \<^verbatim>\<open>T{args...}\<close>; the events are one \<^verbatim>\<open>new\<close> and
  one construction. \<^verbatim>\<open>make_shared\<close> does this with \<open>n = 1\<close> and returns the handle made of
  the address of the value and the object counter, whose count is that 1.
\<close>

theorem make_shared_spec:
  "(case new_meta_object n T args s of
      (meta, s') \<Rightarrow>
        meta = next_addr s \<and>
        fmlookup (cells s') meta =
          Some \<lparr>memory_base = \<lparr>holder = None, count = 1\<rparr>,
                object_base = \<lparr>holder = Some (memory_ctr meta), count = n\<rparr>,
                bx = Constructed (T args)\<rparr> \<and>
        (\<forall>m. m \<noteq> meta \<longrightarrow> fmlookup (cells s') m = fmlookup (cells s) m) \<and>
        trace s' = trace s @ [Ev_new meta, Ev_construct meta] \<and>
        next_addr s' = Suc meta) \<and>
   make_shared T args s =
     (\<lparr>s_object = Some (next_addr s), s_ctr = Some (next_addr s, dispose_object)\<rparr>,
      snd (new_meta_object 1 T args s)) \<and>
   get_ctr (snd (make_shared T args s)) (next_addr s, dispose_object)
     = Some \<lparr>holder = Some (next_addr s, dispose_memory), count = 1\<rparr> \<and>
   get_ctr (snd (make_shared T args s)) (next_addr s, dispose_memory)
     = Some \<lparr>holder = None, count = 1\<rparr>"
  by (simp add: new_meta_object_def make_shared_def Let_def counter_adopt_def construct_def
      shared_ptr_adopt_def meta_get_def object_ctr_def memory_ctr_def get_ctr_def base_of_def)

text \<open>C6, at a concrete input: \<^verbatim>\<open>make_shared\<close> on the empty store.\<close>

theorem make_shared_spec_witness:
  "make_shared Suc 6 empty_heap =
     (\<lparr>s_object = Some 0, s_ctr = Some (0, dispose_object)\<rparr>,
      \<lparr>cells = fmupd 0 \<lparr>memory_base = \<lparr>holder = None, count = 1\<rparr>,
                        object_base = \<lparr>holder = Some (0, dispose_memory), count = 1\<rparr>,
                        bx = Constructed 7\<rparr> fmempty,
       next_addr = 1, trace = [Ev_new 0, Ev_construct 0]\<rparr>)"
proof -
  have "snd (new_meta_object 1 Suc 6 empty_heap) =
      \<lparr>cells = fmupd 0 \<lparr>memory_base = \<lparr>holder = None, count = 1\<rparr>,
                        object_base = \<lparr>holder = Some (0, dispose_memory), count = 1\<rparr>,
                        bx = Constructed 7\<rparr> fmempty,
       next_addr = 1, trace = [Ev_new 0, Ev_construct 0]\<rparr>"
    by (simp add: new_meta_object_def Let_def counter_adopt_def construct_def memory_ctr_def
        empty_heap_def log_event_def)
  with make_shared_spec [where n = 1 and T = Suc and args = 6 and s = empty_heap] show ?thesis
    by (simp add: empty_heap_def)
qed

text \<open>
  C7. \<^verbatim>\<open>release()\<close> returns the pair of the handle's two pointers and leaves the handle
  null; adopting that pair gives back the handle that was released. Neither function
  takes the store, so no counter is touched; the destructor of the handle left behind does
  nothing, and the destructor of the re-adopted handle does what the destructor of the
  original would have done.
\<close>

theorem release_adopt_roundtrip:
  "fst (release h) = (s_object h, s_ctr h) \<and>
   snd (release h) = shared_ptr_null \<and>
   shared_ptr_adopt (fst (fst (release h))) (snd (fst (release h))) = h \<and>
   shared_ptr_destroy s (snd (release h)) = Inr s \<and>
   shared_ptr_destroy s (shared_ptr_adopt (fst (fst (release h))) (snd (fst (release h))))
     = shared_ptr_destroy s h"
  by (simp add: release_def shared_ptr_null_def shared_ptr_adopt_def shared_ptr_destroy_def)

lemma live_get_obj:
  "get_ctr live_object_heap (0, dispose_object)
     = Some \<lparr>holder = Some (0, dispose_memory), count = 1\<rparr>"
  by (simp add: live_object_heap_def get_ctr_def base_of_def)

text \<open>
  C8 as stated fails for a handle that the caller passes as an lvalue: both casts take the
  handle by value, so \<^verbatim>\<open>static_pointer_cast<X>(p)\<close> and \<^verbatim>\<open>handle_cast(p)\<close> copy \<open>p\<close> into the
  parameter. On \<open>live_object_heap\<close> the count of the object counter is 1 before the call
  and 2 after it, and the source handle \<open>p\<close> still holds its two pointers.
\<close>

theorem casts_as_stated_counterexample:
  "check_count live_object_heap (0, dispose_object) = Inr 1 \<and>
   static_pointer_cast_lvalue id live_object_heap
       \<lparr>s_object = Some 0, s_ctr = Some (0, dispose_object)\<rparr>
     = Inr (\<lparr>s_object = Some 0, s_ctr = Some (0, dispose_object)\<rparr>,
            \<lparr>s_object = Some 0, s_ctr = Some (0, dispose_object)\<rparr>,
            \<lparr>cells = fmupd 0
               \<lparr>memory_base = \<lparr>holder = None, count = 2\<rparr>,
                object_base = \<lparr>holder = Some (0, dispose_memory), count = 2\<rparr>,
                bx = Constructed 7\<rparr> fmempty,
             next_addr = 1,
             trace = [Ev_new 0, Ev_construct 0, Ev_fetch_add (0, dispose_memory),
                      Ev_fetch_add (0, dispose_object)]\<rparr>) \<and>
   handle_cast_lvalue live_object_heap
       \<lparr>s_object = Some 0, s_ctr = Some (0, dispose_object)\<rparr>
     = Inr (\<lparr>s_object = Some 0, s_ctr = Some (0, dispose_object)\<rparr>,
            \<lparr>s_object = Some 0, s_ctr = Some (0, dispose_object)\<rparr>,
            \<lparr>cells = fmupd 0
               \<lparr>memory_base = \<lparr>holder = None, count = 2\<rparr>,
                object_base = \<lparr>holder = Some (0, dispose_memory), count = 2\<rparr>,
                bx = Constructed 7\<rparr> fmempty,
             next_addr = 1,
             trace = [Ev_new 0, Ev_construct 0, Ev_fetch_add (0, dispose_memory),
                      Ev_fetch_add (0, dispose_object)]\<rparr>) \<and>
   check_count
       \<lparr>cells = fmupd 0
               \<lparr>memory_base = \<lparr>holder = None, count = 2\<rparr>,
                object_base = \<lparr>holder = Some (0, dispose_memory), count = 2\<rparr>,
                bx = Constructed (7 :: nat)\<rparr> fmempty,
             next_addr = 1,
             trace = [Ev_new 0, Ev_construct 0, Ev_fetch_add (0, dispose_memory),
                      Ev_fetch_add (0, dispose_object)]\<rparr> (0, dispose_object) = Inr 2 \<and>
   shared_ptr_bool \<lparr>s_object = Some 0, s_ctr = Some (0, dispose_object)\<rparr>"
  by (simp add: check_count_def static_pointer_cast_lvalue_def handle_cast_lvalue_def
      shared_ptr_copy_def increment_def get_ctr_def base_of_def put_ctr_def set_base_def
      log_event_def static_pointer_cast_def handle_cast_def release_def shared_ptr_adopt_def
      shared_ptr_destroy_def shared_ptr_move_def shared_ptr_swap_def shared_ptr_null_def
      shared_ptr_bool_def live_object_heap_def Let_def)

text \<open>
  C8, amended. The casts themselves do no increment and no decrement: given the handle in
  their parameter, \<^verbatim>\<open>static_pointer_cast\<close> returns the handle with the converted value pointer
  and the same counter, \<^verbatim>\<open>handle_cast\<close> returns the handle with the same two pointers, and
  both return the store they were given. In a call with an rvalue the handle is moved into
  the parameter: the claim goes to the result, the source handle is left null, and the
  store, with every count and the log, is unchanged. In a call with an lvalue the parameter
  is a copy: the source handle is left as it was, and the store is the one the copy
  constructor leaves. For a null handle that is the store as it was; for a handle on a
  counter with a non-zero count, the count of that counter is one more, every other counter
  is as before, and the log has the one \<^verbatim>\<open>fetch_add\<close> of the copy; the result holds that new
  claim. On a counter with count zero the copy ends in the failed assertion of
  \<^verbatim>\<open>increment()\<close>.
\<close>

theorem casts_transfer_claim:
  "static_pointer_cast conv s h =
     Inr (\<lparr>s_object = map_option conv (s_object h), s_ctr = s_ctr h\<rparr>, s) \<and>
   handle_cast s h = Inr (\<lparr>s_object = s_object h, s_ctr = s_ctr h\<rparr>, s) \<and>
   static_pointer_cast_rvalue conv s h =
     Inr (\<lparr>s_object = map_option conv (s_object h), s_ctr = s_ctr h\<rparr>,
          \<lparr>s_object = None, s_ctr = None\<rparr>, s) \<and>
   handle_cast_rvalue s h =
     Inr (\<lparr>s_object = s_object h, s_ctr = s_ctr h\<rparr>, \<lparr>s_object = None, s_ctr = None\<rparr>, s) \<and>
   (s_ctr h = None \<longrightarrow>
      static_pointer_cast_lvalue conv s h =
        Inr (\<lparr>s_object = map_option conv (s_object h), s_ctr = None\<rparr>, h, s) \<and>
      handle_cast_lvalue s h = Inr (\<lparr>s_object = s_object h, s_ctr = None\<rparr>, h, s)) \<and>
   (\<forall>p c. s_ctr h = Some p \<and> get_ctr s p = Some c \<longrightarrow>
      (count c = 0 \<longrightarrow>
         static_pointer_cast_lvalue conv s h = Inl (Assert_increment p) \<and>
         handle_cast_lvalue s h = Inl (Assert_increment p)) \<and>
      (count c \<noteq> 0 \<longrightarrow>
         (\<exists>s'. static_pointer_cast_lvalue conv s h =
                 Inr (\<lparr>s_object = map_option conv (s_object h), s_ctr = Some p\<rparr>, h, s') \<and>
               handle_cast_lvalue s h = Inr (\<lparr>s_object = s_object h, s_ctr = Some p\<rparr>, h, s') \<and>
               get_ctr s' p = Some (c\<lparr>count := count c + 1\<rparr>) \<and>
               (\<forall>q. q \<noteq> p \<longrightarrow> get_ctr s' q = get_ctr s q) \<and>
               trace s' = trace s @ [Ev_fetch_add p])))"
proof -
  have sc: "static_pointer_cast conv s0 x =
     Inr (\<lparr>s_object = map_option conv (s_object x), s_ctr = s_ctr x\<rparr>, s0)" for s0 :: "'a heap" and x
    by (simp add: static_pointer_cast_def release_def shared_ptr_adopt_def shared_ptr_destroy_def)
  have hc: "handle_cast s0 x = Inr (\<lparr>s_object = s_object x, s_ctr = s_ctr x\<rparr>, s0)"
    for s0 :: "'a heap" and x
    by (simp add: handle_cast_def shared_ptr_move_def shared_ptr_swap_def shared_ptr_null_def
        shared_ptr_destroy_def Let_def)
  have mv: "shared_ptr_move h = (\<lparr>s_object = s_object h, s_ctr = s_ctr h\<rparr>,
      \<lparr>s_object = None, s_ctr = None\<rparr>)"
    by (simp add: shared_ptr_move_def shared_ptr_swap_def shared_ptr_null_def)
  have rv: "static_pointer_cast_rvalue conv s h =
     Inr (\<lparr>s_object = map_option conv (s_object h), s_ctr = s_ctr h\<rparr>,
          \<lparr>s_object = None, s_ctr = None\<rparr>, s)"
    "handle_cast_rvalue s h =
     Inr (\<lparr>s_object = s_object h, s_ctr = s_ctr h\<rparr>, \<lparr>s_object = None, s_ctr = None\<rparr>, s)"
    by (simp_all add: static_pointer_cast_rvalue_def handle_cast_rvalue_def mv sc hc)
  have lv_null: "static_pointer_cast_lvalue conv s h =
        Inr (\<lparr>s_object = map_option conv (s_object h), s_ctr = None\<rparr>, h, s) \<and>
      handle_cast_lvalue s h = Inr (\<lparr>s_object = s_object h, s_ctr = None\<rparr>, h, s)"
    if "s_ctr h = None"
    using that
    by (simp add: static_pointer_cast_lvalue_def handle_cast_lvalue_def shared_ptr_copy_def
        Let_def sc hc)
  have lv_zero: "static_pointer_cast_lvalue conv s h = Inl (Assert_increment p) \<and>
         handle_cast_lvalue s h = Inl (Assert_increment p)"
    if "s_ctr h = Some p" "get_ctr s p = Some c" "count c = 0" for p c
    using that
    by (simp add: static_pointer_cast_lvalue_def handle_cast_lvalue_def shared_ptr_copy_def
        Let_def increment_def)
  have lv_pos: "\<exists>s'. static_pointer_cast_lvalue conv s h =
                 Inr (\<lparr>s_object = map_option conv (s_object h), s_ctr = Some p\<rparr>, h, s') \<and>
               handle_cast_lvalue s h = Inr (\<lparr>s_object = s_object h, s_ctr = Some p\<rparr>, h, s') \<and>
               get_ctr s' p = Some (c\<lparr>count := count c + 1\<rparr>) \<and>
               (\<forall>q. q \<noteq> p \<longrightarrow> get_ctr s' q = get_ctr s q) \<and>
               trace s' = trace s @ [Ev_fetch_add p]"
    if h: "s_ctr h = Some p" and c: "get_ctr s p = Some c" and nz: "count c \<noteq> 0" for p c
  proof -
    let ?s' = "log_event (Ev_fetch_add p) (put_ctr p (c\<lparr>count := count c + 1\<rparr>) s)"
    have cp: "shared_ptr_copy s h = Inr (\<lparr>s_object = s_object h, s_ctr = Some p\<rparr>, ?s')"
      using h c nz by (simp add: shared_ptr_copy_def Let_def increment_def)
    have "static_pointer_cast_lvalue conv s h =
        Inr (\<lparr>s_object = map_option conv (s_object h), s_ctr = Some p\<rparr>, h, ?s')"
      by (simp add: static_pointer_cast_lvalue_def cp sc)
    moreover have "handle_cast_lvalue s h = Inr (\<lparr>s_object = s_object h, s_ctr = Some p\<rparr>, h, ?s')"
      by (simp add: handle_cast_lvalue_def cp hc)
    moreover have "get_ctr ?s' q = (if q = p then Some (c\<lparr>count := count c + 1\<rparr>) else get_ctr s q)" for q
      by (simp add: get_ctr_put_ctr [OF c])
    ultimately show ?thesis by simp
  qed
  from sc hc rv lv_null lv_zero lv_pos show ?thesis
    by blast
qed

text \<open>
  C8 (amended), at concrete inputs: the handle on the object counter of \<open>live_object_heap\<close>,
  count 1, with \<open>Suc\<close> as the pointer conversion, in a call with an rvalue and in a call with
  an lvalue.
\<close>

theorem casts_transfer_claim_witness:
  "get_ctr live_object_heap (0, dispose_object)
     = Some \<lparr>holder = Some (0, dispose_memory), count = 1\<rparr> \<and>
   static_pointer_cast_rvalue Suc live_object_heap
       \<lparr>s_object = Some 0, s_ctr = Some (0, dispose_object)\<rparr>
     = Inr (\<lparr>s_object = Some 1, s_ctr = Some (0, dispose_object)\<rparr>,
            \<lparr>s_object = None, s_ctr = None\<rparr>, live_object_heap) \<and>
   (\<exists>s'. static_pointer_cast_lvalue Suc live_object_heap
             \<lparr>s_object = Some 0, s_ctr = Some (0, dispose_object)\<rparr>
           = Inr (\<lparr>s_object = Some 1, s_ctr = Some (0, dispose_object)\<rparr>,
                  \<lparr>s_object = Some 0, s_ctr = Some (0, dispose_object)\<rparr>, s') \<and>
         get_ctr s' (0, dispose_object) = Some \<lparr>holder = Some (0, dispose_memory), count = 2\<rparr> \<and>
         trace s' = trace live_object_heap @ [Ev_fetch_add (0, dispose_object)])"
  using casts_transfer_claim
    [of Suc live_object_heap "\<lparr>s_object = Some 0, s_ctr = Some (0, dispose_object)\<rparr>"]
  by (auto simp: live_get_obj)

text \<open>
  C9. \<^verbatim>\<open>weak_ptr(const shared_ptr &)\<close> on a handle whose counter pointer is null dereferences
  that null pointer. Whenever the constructor returns, the handle was not null and its
  counter had a non-null holder; on a counter without holder the constructor ends in the
  failed assertion \<^verbatim>\<open>assert(_ctr->holder())\<close>.
\<close>

theorem weak_from_null_undefined:
  "(s_ctr h = None \<longrightarrow> weak_ptr_from_shared s h = Inl Null_pointer) \<and>
   (\<forall>w s'. weak_ptr_from_shared s h = Inr (w, s') \<longrightarrow>
      (\<exists>p c hp. s_ctr h = Some p \<and> get_ctr s p = Some c \<and> holder c = Some hp)) \<and>
   (\<forall>p c. s_ctr h = Some p \<and> get_ctr s p = Some c \<and> holder c = None \<longrightarrow>
      weak_ptr_from_shared s h = Inl (Assert_holder p))"
  by (auto simp: weak_ptr_from_shared_def shared_ptr_ctr_def shared_ptr_get_def holder_of_def
      Let_def split: option.splits sum.splits)


text \<open>
  C9, at concrete inputs: the null handle, a handle on a counter without holder, and the
  handle returned by \<^verbatim>\<open>make_shared\<close>.
\<close>

theorem weak_from_null_undefined_witness:
  "weak_ptr_from_shared dead_object_heap shared_ptr_null = Inl Null_pointer \<and>
   weak_ptr_from_shared dead_object_heap \<lparr>s_object = Some 0, s_ctr = Some (0, dispose_memory)\<rparr>
     = Inl (Assert_holder (0, dispose_memory)) \<and>
   weak_ptr_from_shared (snd (make_shared Suc 6 empty_heap)) (fst (make_shared Suc 6 empty_heap))
     = Inr (\<lparr>w_object = Some 0, w_ctr = Some (0, dispose_object)\<rparr>,
            \<lparr>cells = fmupd 0 \<lparr>memory_base = \<lparr>holder = None, count = 2\<rparr>,
                        object_base = \<lparr>holder = Some (0, dispose_memory), count = 1\<rparr>,
                        bx = Constructed 7\<rparr> fmempty,
             next_addr = 1,
             trace = [Ev_new 0, Ev_construct 0, Ev_fetch_add (0, dispose_memory)]\<rparr>) \<and>
   get_ctr (snd (make_shared Suc 6 empty_heap)) (0, dispose_object)
     = Some \<lparr>holder = Some (0, dispose_memory), count = 1\<rparr>"
proof -
  have a1: "weak_ptr_from_shared dead_object_heap shared_ptr_null = Inl Null_pointer"
    using weak_from_null_undefined [of shared_ptr_null dead_object_heap]
    by (simp add: shared_ptr_null_def)
  have a2: "weak_ptr_from_shared dead_object_heap \<lparr>s_object = Some 0, s_ctr = Some (0, dispose_memory)\<rparr>
     = Inl (Assert_holder (0, dispose_memory))"
    using weak_from_null_undefined
      [of "\<lparr>s_object = Some 0, s_ctr = Some (0, dispose_memory)\<rparr>" dead_object_heap]
    by (simp add: dead_get_mem)
  have a3: "weak_ptr_from_shared (snd (make_shared Suc 6 empty_heap)) (fst (make_shared Suc 6 empty_heap))
     = Inr (\<lparr>w_object = Some 0, w_ctr = Some (0, dispose_object)\<rparr>,
            \<lparr>cells = fmupd 0 \<lparr>memory_base = \<lparr>holder = None, count = 2\<rparr>,
                        object_base = \<lparr>holder = Some (0, dispose_memory), count = 1\<rparr>,
                        bx = Constructed 7\<rparr> fmempty,
             next_addr = 1,
             trace = [Ev_new 0, Ev_construct 0, Ev_fetch_add (0, dispose_memory)]\<rparr>)"
    by (simp add: make_shared_def new_meta_object_def Let_def counter_adopt_def construct_def
        memory_ctr_def object_ctr_def meta_get_def shared_ptr_adopt_def empty_heap_def
        weak_ptr_from_shared_def shared_ptr_get_def shared_ptr_ctr_def holder_of_def get_ctr_def
        base_of_def increment_def put_ctr_def set_base_def log_event_def)
  have a4: "get_ctr (snd (make_shared Suc 6 empty_heap)) (0, dispose_object)
     = Some \<lparr>holder = Some (0, dispose_memory), count = 1\<rparr>"
    using weak_from_null_undefined
      [of "fst (make_shared Suc 6 empty_heap)" "snd (make_shared Suc 6 empty_heap)"] a3
    by (auto simp: make_shared_def new_meta_object_def Let_def shared_ptr_adopt_def
        object_ctr_def meta_get_def empty_heap_def get_ctr_def base_of_def counter_adopt_def
        memory_ctr_def)
  from a1 a2 a3 a4 show ?thesis by simp
qed

text \<open>
  C2 describes the copy that the constructor is meant to make. The constructor as written
  makes none: its first initializer reads \<^verbatim>\<open>other.object\<close>, and \<^verbatim>\<open>weak_ptr\<close> has no member of
  that name (nor one named \<^verbatim>\<open>ctr\<close>), whatever the handle and the store are. No pair is
  duplicated and no holder is incremented.
\<close>

theorem weak_ptr_copy_no_member:
  "weak_ptr_copy s other = Inl (No_such_member ''object'') \<and>
   weak_ptr_member other ''object'' = None \<and>
   weak_ptr_member other ''ctr'' = None \<and>
   weak_ptr_member other ''_object'' = Some (Object_member (w_object other)) \<and>
   weak_ptr_member other ''_ctr'' = Some (Ctr_member (w_ctr other))"
  by (simp add: weak_ptr_copy_def weak_ptr_member_def)

section \<open>Claims about counts and live handles\<close>

subsection \<open>Words\<close>

lemma of_nat_word_zero: "n \<le> 2 ^ 32 \<Longrightarrow> (of_nat n :: 32 word) = 0 \<longleftrightarrow> n = 0 \<or> n = 2 ^ 32"
proof -
  assume le: "n \<le> 2 ^ 32"
  have "(of_nat n :: 32 word) = 0 \<longleftrightarrow> 2 ^ 32 dvd n"
    by (simp add: word_of_nat_eq_0_iff)
  also have "\<dots> \<longleftrightarrow> n = 0 \<or> n = 2 ^ 32"
    using le by (auto dest: dvd_imp_le)
  finally show ?thesis .
qed

lemma of_nat_word_one: "n \<le> 2 ^ 32 \<Longrightarrow> (of_nat n :: 32 word) = 1 \<longleftrightarrow> n = 1"
proof -
  assume le: "n \<le> 2 ^ 32"
  show ?thesis
  proof
    assume one: "(of_nat n :: 32 word) = 1"
    then have "n \<noteq> 2 ^ 32" by auto
    with le have "n < 2 ^ 32" by simp
    then have "unat (1 :: 32 word) = n"
      using one by (intro of_nat_inverse) simp_all
    then show "n = 1" by simp
  qed simp
qed

lemma of_nat_word_gt_one:
  "n \<le> 2 ^ 32 \<Longrightarrow> 1 < (of_nat n :: 32 word) \<Longrightarrow> 2 \<le> n \<and> n < 2 ^ 32"
proof -
  assume le: "n \<le> 2 ^ 32" and gt: "1 < (of_nat n :: 32 word)"
  from gt have "(of_nat n :: 32 word) \<noteq> 0" "(of_nat n :: 32 word) \<noteq> 1"
    by auto
  with le show ?thesis
    using of_nat_word_zero [OF le] of_nat_word_one [OF le] by (cases n) auto
qed

subsection \<open>One operation on one allocation\<close>

lemma lifecycle_append [simp]: "lifecycle m (xs @ ys) = lifecycle m xs @ lifecycle m ys"
  by (simp add: lifecycle_def)

lemma lifecycle_Nil [simp]: "lifecycle m [] = []"
  by (simp add: lifecycle_def)

lemma lifecycle_Cons:
  "lifecycle m (e # evs) =
     (if e = Ev_new m \<or> e = Ev_construct m \<or> e = Ev_destruct m \<or> e = Ev_delete m
      then e # lifecycle m evs else lifecycle m evs)"
  by (simp add: lifecycle_def)

lemma cells_put_ctr:
  "fmlookup (cells s) m = Some mo \<Longrightarrow>
   cells (put_ctr (m, f) c s) = fmupd m (set_base f c mo) (cells s)"
  by (simp add: put_ctr_def)

lemma get_ctr_object: "get_ctr s (object_ctr m) = map_option object_base (fmlookup (cells s) m)"
  by (cases "fmlookup (cells s) m") (simp_all add: get_ctr_def object_ctr_def base_of_def)

lemma get_ctr_memory: "get_ctr s (memory_ctr m) = map_option memory_base (fmlookup (cells s) m)"
  by (cases "fmlookup (cells s) m") (simp_all add: get_ctr_def memory_ctr_def base_of_def)

lemma increment_object_cell:
  assumes st: "cell_st s m n j" and inc: "increment s (object_ctr m) = Inr s'"
  shows "cell_st s' m (Suc n) j \<and> same_elsewhere s s' m \<and> 0 < n"
proof -
  from inc obtain mo where mo: "fmlookup (cells s) m = Some mo"
    by (auto simp: increment_def get_ctr_object split: option.splits)
  from inc mo have nz: "count (object_base mo) \<noteq> 0"
    and s': "s' = log_event (Ev_fetch_add (object_ctr m))
       (put_ctr (object_ctr m) ((object_base mo)\<lparr>count := count (object_base mo) + 1\<rparr>) s)"
    by (auto simp: increment_def get_ctr_object Let_def split: if_splits)
  from st mo have cnt: "count (object_base mo) = of_nat n" and le: "n \<le> 2 ^ 32"
    by (auto simp: cell_st_def)
  from nz cnt le have n: "0 < n" "n < 2 ^ 32"
    using of_nat_word_zero [OF le] by auto
  have cells': "cells s' = fmupd m (mo\<lparr>object_base := (object_base mo)\<lparr>count := 1 + of_nat n\<rparr>\<rparr>) (cells s)"
    using mo cnt by (simp add: s' object_ctr_def cells_put_ctr set_base_def add.commute)
  have tr: "trace s' = trace s @ [Ev_fetch_add (object_ctr m)]"
    by (simp add: s')
  have "cell_st s' m (Suc n) j"
    using st mo n by (auto simp: cell_st_def cells' tr lifecycle_Cons)
  moreover have "next_addr s' = next_addr s"
    by (simp add: s')
  then have "same_elsewhere s s' m"
    by (auto simp: same_elsewhere_def cells' tr lifecycle_Cons)
  ultimately show ?thesis using n by simp
qed

lemma increment_memory_cell:
  assumes st: "cell_st s m n j" and inc: "increment s (memory_ctr m) = Inr s'"
  shows "cell_st s' m n (Suc j) \<and> same_elsewhere s s' m"
proof -
  from inc obtain mo where mo: "fmlookup (cells s) m = Some mo"
    by (auto simp: increment_def get_ctr_memory split: option.splits)
  from inc mo have nz: "count (memory_base mo) \<noteq> 0"
    and s': "s' = log_event (Ev_fetch_add (memory_ctr m))
       (put_ctr (memory_ctr m) ((memory_base mo)\<lparr>count := count (memory_base mo) + 1\<rparr>) s)"
    by (auto simp: increment_def get_ctr_memory Let_def split: if_splits)
  from st mo have cnt: "count (memory_base mo) = of_nat j" and le: "j \<le> 2 ^ 32"
    by (auto simp: cell_st_def)
  from nz cnt le have j: "0 < j" "j < 2 ^ 32"
    using of_nat_word_zero [OF le] by auto
  have cells': "cells s' = fmupd m (mo\<lparr>memory_base := (memory_base mo)\<lparr>count := 1 + of_nat j\<rparr>\<rparr>) (cells s)"
    using mo cnt by (simp add: s' memory_ctr_def cells_put_ctr set_base_def add.commute)
  have tr: "trace s' = trace s @ [Ev_fetch_add (memory_ctr m)]"
    by (simp add: s')
  have "cell_st s' m n (Suc j)"
    using st mo j by (auto simp: cell_st_def cells' tr lifecycle_Cons)
  moreover have "next_addr s' = next_addr s"
    by (simp add: s')
  then have "same_elsewhere s s' m"
    by (auto simp: same_elsewhere_def cells' tr lifecycle_Cons)
  ultimately show ?thesis by simp
qed

lemma increment_if_nonzero_object_cell:
  assumes st: "cell_st s m n j" and inc: "increment_if_nonzero s (object_ctr m) = Inr (ok, s')"
  shows "if ok then cell_st s' m (Suc n) j \<and> same_elsewhere s s' m \<and> 0 < n else s' = s"
proof -
  from inc obtain mo where mo: "fmlookup (cells s) m = Some mo"
    by (auto simp: increment_if_nonzero_def get_ctr_object split: option.splits)
  then have g: "get_ctr s (object_ctr m) = Some (object_base mo)"
    by (simp add: get_ctr_object)
  show ?thesis
  proof (cases ok)
    case False
    with inc show ?thesis
      by (auto simp: increment_if_nonzero_eq [OF g] split: if_splits)
  next
    case True
    with inc have nz: "count (object_base mo) \<noteq> 0"
      and s': "s' = log_event (Ev_compare_exchange (object_ctr m))
         (put_ctr (object_ctr m) ((object_base mo)\<lparr>count := count (object_base mo) + 1\<rparr>) s)"
      by (auto simp: increment_if_nonzero_eq [OF g] split: if_splits)
    from st mo have cnt: "count (object_base mo) = of_nat n" and le: "n \<le> 2 ^ 32"
      by (auto simp: cell_st_def)
    from nz cnt le have n: "0 < n" "n < 2 ^ 32"
      using of_nat_word_zero [OF le] by auto
    have cells': "cells s' = fmupd m (mo\<lparr>object_base := (object_base mo)\<lparr>count := 1 + of_nat n\<rparr>\<rparr>) (cells s)"
      using mo cnt by (simp add: s' object_ctr_def cells_put_ctr set_base_def add.commute)
    have tr: "trace s' = trace s @ [Ev_compare_exchange (object_ctr m)]"
      by (simp add: s')
    have "cell_st s' m (Suc n) j"
      using st mo n by (auto simp: cell_st_def cells' tr lifecycle_Cons)
    moreover have "next_addr s' = next_addr s"
      by (simp add: s')
    then have "same_elsewhere s s' m"
      by (auto simp: same_elsewhere_def cells' tr lifecycle_Cons)
    ultimately show ?thesis using n True by simp
  qed
qed

lemma same_elsewhere_trans:
  "same_elsewhere s s1 m \<Longrightarrow> same_elsewhere s1 s2 m \<Longrightarrow> same_elsewhere s s2 m"
  by (simp add: same_elsewhere_def)

lemma decrement_memory_cell:
  assumes st: "cell_st s m n j" and safe: "0 < n \<Longrightarrow> 2 \<le> j"
    and dec: "decrement s (memory_ctr m) = Inr s'"
  shows "cell_st s' m n (j - 1) \<and> same_elsewhere s s' m \<and> 0 < j"
proof -
  from dec obtain mo where mo: "fmlookup (cells s) m = Some mo"
    by (auto simp: decrement.simps [of s] get_ctr_memory split: option.splits)
  then have g: "get_ctr s (memory_ctr m) = Some (memory_base mo)"
    by (simp add: get_ctr_memory)
  from st mo have cnt: "count (memory_base mo) = of_nat j" and le: "j \<le> 2 ^ 32"
    and j: "0 < j" and h: "holder (memory_base mo) = None"
    by (auto simp: cell_st_def)
  from dec g have nz: "count (memory_base mo) \<noteq> 0"
    by (auto simp: decrement_zero)
  show ?thesis
  proof (cases "1 < count (memory_base mo)")
    case True
    from True have "1 < (of_nat j :: 32 word)"
      by (simp add: cnt)
    from of_nat_word_gt_one [OF le this] have j2: "2 \<le> j" "j < 2 ^ 32"
      by simp_all
    from dec [unfolded decrement_many [OF g True]]
    have s': "s' = log_event (Ev_fetch_sub (memory_ctr m))
        (put_ctr (memory_ctr m) ((memory_base mo)\<lparr>count := count (memory_base mo) - 1\<rparr>) s)"
      by (simp only: sum.inject)
    have cells': "cells s' = fmupd m (mo\<lparr>memory_base := (memory_base mo)\<lparr>count := of_nat j - 1\<rparr>\<rparr>) (cells s)"
      using mo cnt by (simp add: s' memory_ctr_def cells_put_ctr set_base_def)
    have tr: "trace s' = trace s @ [Ev_fetch_sub (memory_ctr m)]"
      by (simp add: s')
    have "cell_st s' m n (j - 1)"
      using st mo j2 by (auto simp: cell_st_def cells' tr lifecycle_Cons)
    moreover have "next_addr s' = next_addr s"
      by (simp add: s')
    then have "same_elsewhere s s' m"
      by (auto simp: same_elsewhere_def cells' tr lifecycle_Cons)
    ultimately show ?thesis using j by simp
  next
    case False
    from False nz have one: "count (memory_base mo) = 1"
      by (rule word_not_gt_one)
    from one have "(of_nat j :: 32 word) = 1"
      by (simp add: cnt)
    with of_nat_word_one [OF le] have j1: "j = 1"
      by simp
    with safe have n0: "n = 0" by fastforce
    with st mo have oc: "count (object_base mo) = 0" and b: "bx mo = Destructed"
      and lc: "lifecycle m (trace s) = [Ev_new m, Ev_construct m, Ev_destruct m]"
      by (auto simp: cell_st_def)
    define s1 where "s1 = log_event (Ev_fetch_sub (memory_ctr m))
        (put_ctr (memory_ctr m) ((memory_base mo)\<lparr>count := 0\<rparr>) s)"
    have d: "dispose s1 (memory_ctr m) =
        Inr (log_event (Ev_delete m) ((log_event (Ev_dispose (memory_ctr m)) s1)\<lparr>cells := fmdrop m (cells s)\<rparr>))"
      using mo oc
      by (simp add: dispose_def memory_ctr_def dispose_memory_impl_def s1_def cells_put_ctr
          set_base_def fmdrop_fmupd_same)
    from dec [unfolded decrement_one [OF g one] h, folded s1_def, unfolded d]
    have s': "s' = log_event (Ev_delete m)
        ((log_event (Ev_dispose (memory_ctr m)) s1)\<lparr>cells := fmdrop m (cells s)\<rparr>)"
      by (simp only: sum.case option.case sum.inject)
    have cells': "cells s' = fmdrop m (cells s)"
      by (simp add: s')
    have tr: "trace s' = trace s @ [Ev_fetch_sub (memory_ctr m), Ev_dispose (memory_ctr m), Ev_delete m]"
      by (simp add: s' s1_def log_event_def)
    have "cell_st s' m n (j - 1)"
      using lc by (simp add: cell_st_def cells' tr lifecycle_Cons n0 j1)
    moreover have "next_addr s' = next_addr s"
      by (simp add: s' s1_def log_event_def)
    then have "same_elsewhere s s' m"
      by (auto simp: same_elsewhere_def cells' tr lifecycle_Cons)
    ultimately show ?thesis using j by simp
  qed
qed

lemma decrement_object_cell:
  assumes st: "cell_st s m n j" and pos: "0 < n"
    and dec: "decrement s (object_ctr m) = Inr s'"
  shows "cell_st s' m (n - 1) (if n = 1 then j - 1 else j) \<and> same_elsewhere s s' m"
proof -
  from dec obtain mo where mo: "fmlookup (cells s) m = Some mo"
    by (auto simp: decrement.simps [of s] get_ctr_object split: option.splits)
  then have g: "get_ctr s (object_ctr m) = Some (object_base mo)"
    by (simp add: get_ctr_object)
  from st mo pos have cnt: "count (object_base mo) = of_nat n" and le: "n \<le> 2 ^ 32"
    and h: "holder (object_base mo) = Some (memory_ctr m)"
    and b: "\<exists>v. bx mo = Constructed v"
    and lc: "lifecycle m (trace s) = [Ev_new m, Ev_construct m]"
    by (auto simp: cell_st_def)
  from dec g have nz: "count (object_base mo) \<noteq> 0"
    by (auto simp: decrement_zero)
  show ?thesis
  proof (cases "1 < count (object_base mo)")
    case True
    from True have "1 < (of_nat n :: 32 word)"
      by (simp add: cnt)
    from of_nat_word_gt_one [OF le this] have n2: "2 \<le> n" "n < 2 ^ 32"
      by simp_all
    from dec [unfolded decrement_many [OF g True]]
    have s': "s' = log_event (Ev_fetch_sub (object_ctr m))
        (put_ctr (object_ctr m) ((object_base mo)\<lparr>count := count (object_base mo) - 1\<rparr>) s)"
      by (simp only: sum.inject)
    have cells': "cells s' = fmupd m (mo\<lparr>object_base := (object_base mo)\<lparr>count := of_nat n - 1\<rparr>\<rparr>) (cells s)"
      using mo cnt by (simp add: s' object_ctr_def cells_put_ctr set_base_def)
    have tr: "trace s' = trace s @ [Ev_fetch_sub (object_ctr m)]"
      by (simp add: s')
    have "cell_st s' m (n - 1) j"
      using st mo n2 by (auto simp: cell_st_def cells' tr lifecycle_Cons)
    moreover have "next_addr s' = next_addr s"
      by (simp add: s')
    then have "same_elsewhere s s' m"
      by (auto simp: same_elsewhere_def cells' tr lifecycle_Cons)
    ultimately show ?thesis using n2 by simp
  next
    case False
    from False nz have one: "count (object_base mo) = 1"
      by (rule word_not_gt_one)
    from one have "(of_nat n :: 32 word) = 1"
      by (simp add: cnt)
    with of_nat_word_one [OF le] have n1: "n = 1"
      by simp
    define s1 where "s1 = log_event (Ev_fetch_sub (object_ctr m))
        (put_ctr (object_ctr m) ((object_base mo)\<lparr>count := 0\<rparr>) s)"
    define s2 where "s2 = log_event (Ev_destruct m) ((log_event (Ev_dispose (object_ctr m)) s1)
        \<lparr>cells := fmupd m (mo\<lparr>object_base := (object_base mo)\<lparr>count := 0\<rparr>, bx := Destructed\<rparr>) (cells s)\<rparr>)"
    have d: "dispose s1 (object_ctr m) = Inr s2"
      using mo b
      by (auto simp: dispose_def object_ctr_def dispose_object_impl_def s1_def s2_def
          cells_put_ctr set_base_def destruct_def)
    from dec [unfolded decrement_one [OF g one] h, folded s1_def, unfolded d]
    have rest: "decrement s2 (memory_ctr m) = Inr s'"
      by (simp only: sum.case option.case)
    have cells2: "cells s2 = fmupd m (mo\<lparr>object_base := (object_base mo)\<lparr>count := 0\<rparr>, bx := Destructed\<rparr>) (cells s)"
      by (simp add: s2_def)
    have tr2: "trace s2 = trace s @ [Ev_fetch_sub (object_ctr m), Ev_dispose (object_ctr m), Ev_destruct m]"
      by (simp add: s2_def s1_def log_event_def)
    have st2: "cell_st s2 m 0 j"
      using st mo lc by (auto simp: cell_st_def cells2 tr2 lifecycle_Cons n1)
    have "next_addr s2 = next_addr s"
      by (simp add: s2_def s1_def log_event_def)
    then have fr2: "same_elsewhere s s2 m"
      by (auto simp: same_elsewhere_def cells2 tr2 lifecycle_Cons)
    from decrement_memory_cell [OF st2 _ rest]
    have "cell_st s' m 0 (j - 1)" and "same_elsewhere s2 s' m"
      by simp_all
    with fr2 n1 show ?thesis
      by (auto intro: same_elsewhere_trans)
  qed
qed


subsection \<open>One operation on the store\<close>

lemma cell_st_frame:
  "fmlookup (cells s') m = fmlookup (cells s) m \<Longrightarrow>
   lifecycle m (trace s') = lifecycle m (trace s) \<Longrightarrow>
   cell_st s' m n j = cell_st s m n j"
  by (cases "fmlookup (cells s) m") (simp_all add: cell_st_def)

lemma heap_ok_update:
  assumes ok: "heap_ok s N K" and fr: "same_elsewhere s s' m"
    and st: "cell_st s' m n' (k' + latent n')" and m: "m < next_addr s"
  shows "heap_ok s' (N(m := n')) (K(m := k'))"
  unfolding heap_ok_def
proof (rule conjI; intro allI impI)
  fix m' assume "m' < next_addr s'"
  then have lt: "m' < next_addr s" using fr by (simp add: same_elsewhere_def)
  show "cell_st s' m' ((N(m := n')) m') ((K(m := k')) m' + latent ((N(m := n')) m'))"
  proof (cases "m' = m")
    case True
    with st show ?thesis by simp
  next
    case False
    from ok lt have "cell_st s m' (N m') (K m' + latent (N m'))"
      by (simp add: heap_ok_def)
    moreover from fr False have "cell_st s' m' (N m') (K m' + latent (N m'))
        = cell_st s m' (N m') (K m' + latent (N m'))"
      by (intro cell_st_frame) (simp_all add: same_elsewhere_def)
    ultimately show ?thesis using False by simp
  qed
next
  fix m' assume "next_addr s' \<le> m'"
  then have ge: "next_addr s \<le> m'" using fr by (simp add: same_elsewhere_def)
  with m have ne: "m' \<noteq> m" by simp
  from ok ge have "fmlookup (cells s) m' = None \<and> lifecycle m' (trace s) = [] \<and> N m' = 0 \<and> K m' = 0"
    by (simp add: heap_ok_def)
  with fr ne show "fmlookup (cells s') m' = None \<and> lifecycle m' (trace s') = [] \<and>
      (N(m := n')) m' = 0 \<and> (K(m := k')) m' = 0"
    by (simp add: same_elsewhere_def)
qed

lemma heap_ok_cell: "heap_ok s N K \<Longrightarrow> m < next_addr s \<Longrightarrow> cell_st s m (N m) (K m + latent (N m))"
  by (simp add: heap_ok_def)

lemma heap_ok_pos: "heap_ok s N K \<Longrightarrow> 0 < N m \<or> 0 < K m \<Longrightarrow> m < next_addr s"
  by (rule ccontr) (auto simp: heap_ok_def not_less)

lemma heap_ok_increment_object:
  assumes ok: "heap_ok s N K" and pos: "0 < N m"
    and inc: "increment s (object_ctr m) = Inr s'"
  shows "heap_ok s' (N(m := Suc (N m))) K"
proof -
  have m: "m < next_addr s" using ok pos by (auto intro: heap_ok_pos)
  from increment_object_cell [OF heap_ok_cell [OF ok m] inc]
  have "cell_st s' m (Suc (N m)) (K m + latent (N m))" and fr: "same_elsewhere s s' m"
    by simp_all
  with pos have "cell_st s' m (Suc (N m)) (K m + latent (Suc (N m)))"
    by (simp add: latent_def)
  from heap_ok_update [OF ok fr this m] show ?thesis by simp
qed

lemma heap_ok_increment_memory:
  assumes ok: "heap_ok s N K" and m: "m < next_addr s"
    and inc: "increment s (memory_ctr m) = Inr s'"
  shows "heap_ok s' N (K(m := Suc (K m)))"
proof -
  from increment_memory_cell [OF heap_ok_cell [OF ok m] inc]
  have "cell_st s' m (N m) (Suc (K m) + latent (N m))" and fr: "same_elsewhere s s' m"
    by simp_all
  from heap_ok_update [OF ok fr this(1) m] show ?thesis by simp
qed

lemma heap_ok_increment_if_nonzero:
  assumes ok: "heap_ok s N K" and m: "m < next_addr s"
    and inc: "increment_if_nonzero s (object_ctr m) = Inr (b, s')"
  shows "heap_ok s' (if b then N(m := Suc (N m)) else N) K"
proof (cases b)
  case False
  with increment_if_nonzero_object_cell [OF heap_ok_cell [OF ok m] inc] ok show ?thesis
    by simp
next
  case True
  with increment_if_nonzero_object_cell [OF heap_ok_cell [OF ok m] inc]
  have "cell_st s' m (Suc (N m)) (K m + latent (N m))" and fr: "same_elsewhere s s' m"
    and pos: "0 < N m"
    by simp_all
  then have "cell_st s' m (Suc (N m)) (K m + latent (Suc (N m)))"
    by (simp add: latent_def)
  from heap_ok_update [OF ok fr this m] True show ?thesis by simp
qed

lemma heap_ok_decrement_object:
  assumes ok: "heap_ok s N K" and pos: "0 < N m"
    and dec: "decrement s (object_ctr m) = Inr s'"
  shows "heap_ok s' (N(m := N m - 1)) K"
proof -
  have m: "m < next_addr s" using ok pos by (auto intro: heap_ok_pos)
  from decrement_object_cell [OF heap_ok_cell [OF ok m] pos dec]
  have "cell_st s' m (N m - 1) (if N m = 1 then K m + latent (N m) - 1 else K m + latent (N m))"
    and fr: "same_elsewhere s s' m"
    by simp_all
  with pos have "cell_st s' m (N m - 1) (K m + latent (N m - 1))"
    by (auto simp: latent_def split: if_splits)
  from heap_ok_update [OF ok fr this m] show ?thesis by simp
qed

lemma heap_ok_decrement_memory:
  assumes ok: "heap_ok s N K" and pos: "0 < K m"
    and dec: "decrement s (memory_ctr m) = Inr s'"
  shows "heap_ok s' N (K(m := K m - 1))"
proof -
  have m: "m < next_addr s" using ok pos by (auto intro: heap_ok_pos)
  have safe: "0 < N m \<Longrightarrow> 2 \<le> K m + latent (N m)"
    using pos by (simp add: latent_def)
  from decrement_memory_cell [OF heap_ok_cell [OF ok m] safe dec]
  have "cell_st s' m (N m) (K m + latent (N m) - 1)" and fr: "same_elsewhere s s' m"
    by simp_all
  with pos have "cell_st s' m (N m) (K m - 1 + latent (N m))"
    by simp
  from heap_ok_update [OF ok fr this m] show ?thesis by simp
qed

lemma heap_ok_new_meta_object:
  assumes ok: "heap_ok s N K" and new: "new_meta_object 1 T args s = (m, s')"
  shows "m = next_addr s \<and> heap_ok s' (N(m := 1)) K"
proof -
  from new have m: "m = next_addr s"
    and cells': "cells s' = fmupd m \<lparr>memory_base = \<lparr>holder = None, count = 1\<rparr>,
          object_base = \<lparr>holder = Some (memory_ctr m), count = 1\<rparr>,
          bx = Constructed (T args)\<rparr> (cells s)"
    and tr: "trace s' = trace s @ [Ev_new m, Ev_construct m]"
    and nx: "next_addr s' = Suc m"
    by (auto simp: new_meta_object_def Let_def counter_adopt_def construct_def)
  from ok m have fresh: "lifecycle m (trace s) = []" "K m = 0"
    by (simp_all add: heap_ok_def)
  have "heap_ok s' (N(m := 1)) K"
    unfolding heap_ok_def
  proof (rule conjI; intro allI impI)
    fix m' assume lt: "m' < next_addr s'"
    show "cell_st s' m' ((N(m := 1)) m') (K m' + latent ((N(m := 1)) m'))"
    proof (cases "m' = m")
      case True
      with fresh show ?thesis
        by (simp add: cell_st_def cells' tr latent_def lifecycle_Cons)
    next
      case False
      with lt nx m have "m' < next_addr s" by simp
      with ok have "cell_st s m' (N m') (K m' + latent (N m'))"
        by (simp add: heap_ok_def)
      moreover from False have "cell_st s' m' (N m') (K m' + latent (N m'))
          = cell_st s m' (N m') (K m' + latent (N m'))"
        by (intro cell_st_frame) (simp_all add: cells' tr lifecycle_Cons)
      ultimately show ?thesis using False by simp
    qed
  next
    fix m' assume "next_addr s' \<le> m'"
    with nx m have ge: "next_addr s \<le> m'" and ne: "m' \<noteq> m" by simp_all
    from ok ge have "fmlookup (cells s) m' = None \<and> lifecycle m' (trace s) = [] \<and> N m' = 0 \<and> K m' = 0"
      by (simp add: heap_ok_def)
    with ne show "fmlookup (cells s') m' = None \<and> lifecycle m' (trace s') = [] \<and>
        (N(m := 1)) m' = 0 \<and> K m' = 0"
      by (simp add: cells' tr lifecycle_Cons)
  qed
  with m show ?thesis by simp
qed


lemma claim_None [simp]: "claim None m = 0"
  by (simp add: claim_def)

lemma claim_object_ctr [simp]: "claim (Some (object_ctr m)) m' = (if m = m' then 1 else 0)"
  by (simp add: claim_def object_ctr_def)

lemma on_object_None [simp]: "on_object None"
  by (simp add: on_object_def)

lemma on_object_object_ctr [simp]: "on_object (Some (object_ctr m))"
  by (simp add: on_object_def object_ctr_def)

lemma on_object_cases:
  assumes "on_object c"
  obtains "c = None" | m where "c = Some (object_ctr m)"
  using assms by (cases c) (auto simp: on_object_def object_ctr_def)

lemma fun_upd_Suc_claim: "N(m := Suc (N m)) = (\<lambda>m'. N m' + claim (Some (object_ctr m)) m')"
  by (auto simp: fun_eq_iff)

lemma fun_upd_pred_claim: "N(m := N m - 1) = (\<lambda>m'. N m' - claim (Some (object_ctr m)) m')"
  by (auto simp: fun_eq_iff)

lemma heap_ok_holder:
  assumes ok: "heap_ok s N K" and pos: "0 < N m \<or> 0 < K m"
  shows "holder_of s (object_ctr m) = Inr (Some (memory_ctr m))"
proof -
  have m: "m < next_addr s" using ok pos by (rule heap_ok_pos)
  from heap_ok_cell [OF ok m] pos show ?thesis
    by (auto simp: cell_st_def holder_of_def get_ctr_object latent_def split: option.splits)
qed

lemma heap_ok_copy:
  assumes ok: "heap_ok s N K" and obj: "on_object (s_ctr h)"
    and le: "\<And>m. claim (s_ctr h) m \<le> N m"
    and copy: "shared_ptr_copy s h = Inr (h', s')"
  shows "s_ctr h' = s_ctr h \<and> heap_ok s' (\<lambda>m. N m + claim (s_ctr h) m) K"
  using obj
proof (cases rule: on_object_cases)
  case 1
  with copy ok show ?thesis
    by (auto simp: shared_ptr_copy_def Let_def)
next
  case (2 m)
  with copy have inc: "increment s (object_ctr m) = Inr s'" and h': "s_ctr h' = s_ctr h"
    by (auto simp: shared_ptr_copy_def Let_def split: sum.splits)
  from le [of m] 2 have "0 < N m" by simp
  from heap_ok_increment_object [OF ok this inc, unfolded fun_upd_Suc_claim] h' 2 show ?thesis
    by simp
qed

lemma heap_ok_destroy:
  assumes ok: "heap_ok s N K" and obj: "on_object (s_ctr h)"
    and le: "\<And>m. claim (s_ctr h) m \<le> N m"
    and d: "shared_ptr_destroy s h = Inr s'"
  shows "heap_ok s' (\<lambda>m. N m - claim (s_ctr h) m) K"
  using obj
proof (cases rule: on_object_cases)
  case 1
  with d ok show ?thesis
    by (auto simp: shared_ptr_destroy_def)
next
  case (2 m)
  with d have dec: "decrement s (object_ctr m) = Inr s'"
    by (auto simp: shared_ptr_destroy_def)
  from le [of m] 2 have "0 < N m" by simp
  from heap_ok_decrement_object [OF ok this dec, unfolded fun_upd_pred_claim] 2 show ?thesis
    by simp
qed

lemma heap_ok_assign:
  assumes ok: "heap_ok s N K" and obj: "on_object (s_ctr this)"
    and le: "\<And>m. claim (s_ctr this) m \<le> N m"
    and a: "shared_ptr_assign s this other = Inr (this', s')"
  shows "s_ctr this' = s_ctr other \<and> heap_ok s' (\<lambda>m. N m - claim (s_ctr this) m) K"
proof -
  from a obtain other' where sw: "shared_ptr_swap this other = (this', other')"
    and d: "shared_ptr_destroy s other' = Inr s'"
    by (auto simp: shared_ptr_assign_def split: prod.splits sum.splits)
  from sw have c: "s_ctr this' = s_ctr other" "s_ctr other' = s_ctr this"
    by (auto simp: shared_ptr_swap_def)
  from heap_ok_destroy [OF ok _ _ d] obj le c show ?thesis
    by simp
qed

lemma heap_ok_weak_from_shared:
  assumes ok: "heap_ok s N K" and obj: "on_object (s_ctr h)"
    and le: "\<And>m. claim (s_ctr h) m \<le> N m"
    and w: "weak_ptr_from_shared s h = Inr (w', s')"
  shows "w_ctr w' = s_ctr h \<and> heap_ok s' N (\<lambda>m. K m + claim (s_ctr h) m)"
  using obj
proof (cases rule: on_object_cases)
  case 1
  with w show ?thesis
    by (simp add: weak_ptr_from_shared_def shared_ptr_ctr_def Let_def)
next
  case (2 m)
  from le [of m] 2 have pos: "0 < N m" by simp
  then have m: "m < next_addr s" using ok by (auto intro: heap_ok_pos)
  from heap_ok_holder [OF ok] pos have "holder_of s (object_ctr m) = Inr (Some (memory_ctr m))"
    by simp
  with w 2 have inc: "increment s (memory_ctr m) = Inr s'" and w': "w_ctr w' = s_ctr h"
    by (auto simp: weak_ptr_from_shared_def shared_ptr_ctr_def Let_def split: sum.splits)
  from heap_ok_increment_memory [OF ok m inc, unfolded fun_upd_Suc_claim] w' 2 show ?thesis
    by simp
qed

lemma heap_ok_weak_destroy:
  assumes ok: "heap_ok s N K" and obj: "on_object (w_ctr x)"
    and le: "\<And>m. claim (w_ctr x) m \<le> K m"
    and d: "weak_ptr_destroy s x = Inr s'"
  shows "heap_ok s' N (\<lambda>m. K m - claim (w_ctr x) m)"
  using obj
proof (cases rule: on_object_cases)
  case 1
  with d ok show ?thesis
    by (auto simp: weak_ptr_destroy_def)
next
  case (2 m)
  from le [of m] 2 have pos: "0 < K m" by simp
  from heap_ok_holder [OF ok] pos have "holder_of s (object_ctr m) = Inr (Some (memory_ctr m))"
    by simp
  with d 2 have dec: "decrement s (memory_ctr m) = Inr s'"
    by (auto simp: weak_ptr_destroy_def)
  from heap_ok_decrement_memory [OF ok pos dec, unfolded fun_upd_pred_claim] 2 show ?thesis
    by simp
qed

lemma heap_ok_weak_assign:
  assumes ok: "heap_ok s N K" and obj: "on_object (w_ctr this)"
    and le: "\<And>m. claim (w_ctr this) m \<le> K m"
    and a: "weak_ptr_assign s this other = Inr (this', s')"
  shows "w_ctr this' = w_ctr other \<and> heap_ok s' N (\<lambda>m. K m - claim (w_ctr this) m)"
proof -
  from a obtain other' where sw: "weak_ptr_swap this other = (this', other')"
    and d: "weak_ptr_destroy s other' = Inr s'"
    by (auto simp: weak_ptr_assign_def split: prod.splits sum.splits)
  from sw have c: "w_ctr this' = w_ctr other" "w_ctr other' = w_ctr this"
    by (auto simp: weak_ptr_swap_def)
  from heap_ok_weak_destroy [OF ok _ _ d] obj le c show ?thesis
    by simp
qed

lemma lock_cases:
  assumes l: "lock s x = Inr (h', s')" and c: "w_ctr x = Some p"
  shows "\<exists>b. increment_if_nonzero s p = Inr (b, s') \<and> s_ctr h' = (if b then Some p else None)"
proof (cases "increment_if_nonzero s p")
  case (Inl e)
  with l c show ?thesis by (simp add: lock_def)
next
  case (Inr r)
  note ir = this
  obtain b s1 where r: "r = (b, s1)" by (cases r)
  have "lock s x = (if \<not> b then Inr (shared_ptr_null, s1)
       else Inr (shared_ptr_adopt (w_object x) (Some p), s1))"
    by (simp add: lock_def c ir r)
  with l have "(Inr (h', s') :: error + shared_ptr \<times> 'a heap) =
      (if \<not> b then Inr (shared_ptr_null, s1)
       else Inr (shared_ptr_adopt (w_object x) (Some p), s1))"
    by (simp only:)
  then have "s' = s1" and "s_ctr h' = (if b then Some p else None)"
    by (simp_all add: shared_ptr_null_def shared_ptr_adopt_def split: if_splits)
  then have "increment_if_nonzero s p = Inr (b, s') \<and> s_ctr h' = (if b then Some p else None)"
    by (simp add: ir r)
  then show ?thesis ..
qed

lemma heap_ok_lock:
  assumes ok: "heap_ok s N K" and obj: "on_object (w_ctr x)"
    and le: "\<And>m. claim (w_ctr x) m \<le> K m"
    and l: "lock s x = Inr (h', s')"
  shows "on_object (s_ctr h') \<and> heap_ok s' (\<lambda>m. N m + claim (s_ctr h') m) K"
  using obj
proof (cases rule: on_object_cases)
  case 1
  with l ok show ?thesis
    by (auto simp: lock_def shared_ptr_null_def)
next
  case (2 m)
  from le [of m] 2 have pos: "0 < K m" by simp
  then have m: "m < next_addr s" using ok by (auto intro: heap_ok_pos)
  from lock_cases [OF l 2]
  have "\<exists>b. increment_if_nonzero s (object_ctr m) = Inr (b, s') \<and>
      s_ctr h' = (if b then Some (object_ctr m) else None)" .
  then obtain b where inc: "increment_if_nonzero s (object_ctr m) = Inr (b, s')"
    and h': "s_ctr h' = (if b then Some (object_ctr m) else None)"
    by blast
  from heap_ok_increment_if_nonzero [OF ok m inc, unfolded fun_upd_Suc_claim] h' show ?thesis
    by (cases b) simp_all
qed

lemma heap_ok_make_shared:
  assumes ok: "heap_ok s N K" and mk: "make_shared T args s = (h', s')"
  shows "on_object (s_ctr h') \<and> heap_ok s' (\<lambda>m. N m + claim (s_ctr h') m) K"
proof -
  from mk obtain m where new: "new_meta_object 1 T args s = (m, s')"
    and h': "s_ctr h' = Some (object_ctr m)"
    by (auto simp: make_shared_def shared_ptr_adopt_def split: prod.splits)
  note new_ok = heap_ok_new_meta_object [OF ok new]
  from new_ok have m: "m = next_addr s" ..
  from new_ok have ok': "heap_ok s' (N(m := 1)) K" ..
  from ok m have "N m = 0" by (simp add: heap_ok_def)
  then have "N(m := 1) = (\<lambda>m'. N m' + claim (Some (object_ctr m)) m')"
    by (auto simp: fun_eq_iff)
  with ok' have "heap_ok s' (\<lambda>m'. N m' + claim (Some (object_ctr m)) m') K"
    by (simp only:)
  with h' show ?thesis by simp
qed


subsection \<open>Counting handles in a list\<close>

lemma handles_on_Nil [simp]: "handles_on c [] m = 0"
  by (simp add: handles_on_def)

lemma handles_on_Cons: "handles_on c (h # xs) m = claim (c h) m + handles_on c xs m"
  by (simp add: handles_on_def claim_def)

lemma handles_on_app: "handles_on c (xs @ ys) m = handles_on c xs m + handles_on c ys m"
  by (simp add: handles_on_def)

lemma handles_on_append: "handles_on c (xs @ [h]) = (\<lambda>m. handles_on c xs m + claim (c h) m)"
  by (simp add: fun_eq_iff handles_on_app handles_on_Cons)

lemma handles_on_split:
  "i < length xs \<Longrightarrow>
   handles_on c xs m = handles_on c (take i xs) m + claim (c (xs ! i)) m + handles_on c (drop (Suc i) xs) m"
proof -
  assume "i < length xs"
  then have "xs = take i xs @ xs ! i # drop (Suc i) xs"
    by (rule id_take_nth_drop)
  then have "handles_on c xs m = handles_on c (take i xs @ xs ! i # drop (Suc i) xs) m"
    by simp
  then show ?thesis
    by (simp add: handles_on_app handles_on_Cons)
qed

lemma handles_on_nth_le: "i < length xs \<Longrightarrow> claim (c (xs ! i)) m \<le> handles_on c xs m"
  by (simp add: handles_on_split [of i xs])

lemma handles_on_remove:
  "i < length xs \<Longrightarrow>
   handles_on c (remove_nth i xs) = (\<lambda>m. handles_on c xs m - claim (c (xs ! i)) m)"
  by (simp add: fun_eq_iff remove_nth_def handles_on_app handles_on_split [of i xs])

lemma handles_on_update:
  "i < length xs \<Longrightarrow>
   handles_on c (xs[i := h]) = (\<lambda>m. handles_on c xs m - claim (c (xs ! i)) m + claim (c h) m)"
  by (simp add: fun_eq_iff upd_conv_take_nth_drop handles_on_app handles_on_Cons
      handles_on_split [of i xs])

lemma set_remove_nth: "set (remove_nth i xs) \<subseteq> set xs"
  by (auto simp: remove_nth_def dest: in_set_takeD in_set_dropD)

lemma world_ok_init: "world_ok init_world"
  by (simp add: world_ok_def init_world_def heap_ok_def strong_count_def weak_count_def
      cell_st_def)


subsection \<open>One statement of the client\<close>

lemma world_ok_heap: "world_ok w \<Longrightarrow> heap_ok (store w) (strong_count w) (weak_count w)"
  by (simp add: world_ok_def)

lemma world_ok_strong: "world_ok w \<Longrightarrow> i < length (strong w) \<Longrightarrow> on_object (s_ctr (strong w ! i))"
  by (simp add: world_ok_def)

lemma world_ok_weak: "world_ok w \<Longrightarrow> k < length (weak w) \<Longrightarrow> on_object (w_ctr (weak w ! k))"
  by (simp add: world_ok_def)

lemma strong_le: "i < length (strong w) \<Longrightarrow> claim (s_ctr (strong w ! i)) m \<le> strong_count w m"
  by (simp add: strong_count_def handles_on_nth_le)

lemma weak_le: "k < length (weak w) \<Longrightarrow> claim (w_ctr (weak w ! k)) m \<le> weak_count w m"
  by (simp add: weak_count_def handles_on_nth_le)

lemma world_okI:
  assumes "heap_ok s' N' K'"
    and "N' = handles_on s_ctr xs" and "K' = handles_on w_ctr ys"
    and "\<And>h. h \<in> set xs \<Longrightarrow> on_object (s_ctr h)"
    and "\<And>x. x \<in> set ys \<Longrightarrow> on_object (w_ctr x)"
  shows "world_ok \<lparr>store = s', strong = xs, weak = ys\<rparr>"
  using assms by (simp add: world_ok_def strong_count_def weak_count_def)

lemma step_Make:
  assumes ok: "world_ok w" and st: "step T w (Make args) = Inr w'"
  shows "world_ok w'"
proof -
  obtain p s' where mk: "make_shared T args (store w) = (p, s')"
    by (cases "make_shared T args (store w)")
  with st have w': "w' = \<lparr>store = s', strong = strong w @ [p], weak = weak w\<rparr>"
    by auto
  from heap_ok_make_shared [OF world_ok_heap [OF ok] mk]
  have obj: "on_object (s_ctr p)"
    and h: "heap_ok s' (\<lambda>m. strong_count w m + claim (s_ctr p) m) (weak_count w)"
    by simp_all
  show ?thesis
    unfolding w'
  proof (rule world_okI [OF h])
    show "(\<lambda>m. strong_count w m + claim (s_ctr p) m) = handles_on s_ctr (strong w @ [p])"
      by (simp add: handles_on_append strong_count_def)
    show "weak_count w = handles_on w_ctr (weak w)"
      by (simp add: weak_count_def)
  qed (use ok obj in \<open>auto simp: world_ok_def\<close>)
qed

lemma step_Strong_null:
  assumes ok: "world_ok w" and st: "step T w Strong_null = Inr w'"
  shows "world_ok w'"
proof -
  from st have w': "w' = \<lparr>store = store w, strong = strong w @ [shared_ptr_null], weak = weak w\<rparr>"
    by auto
  show ?thesis
    unfolding w'
  proof (rule world_okI [OF world_ok_heap [OF ok]])
    show "strong_count w = handles_on s_ctr (strong w @ [shared_ptr_null])"
      by (simp add: handles_on_append strong_count_def shared_ptr_null_def)
    show "weak_count w = handles_on w_ctr (weak w)"
      by (simp add: weak_count_def)
  qed (use ok in \<open>auto simp: world_ok_def shared_ptr_null_def\<close>)
qed

lemma step_Strong_copy:
  assumes ok: "world_ok w" and st: "step T w (Strong_copy i) = Inr w'"
  shows "world_ok w'"
proof -
  from st have i: "i < length (strong w)"
    by (auto split: if_splits)
  with st obtain p s' where cp: "shared_ptr_copy (store w) (strong w ! i) = Inr (p, s')"
    and w': "w' = \<lparr>store = s', strong = strong w @ [p], weak = weak w\<rparr>"
    by (auto split: sum.splits)
  from heap_ok_copy [OF world_ok_heap [OF ok] world_ok_strong [OF ok i] strong_le [OF i] cp]
  have c: "s_ctr p = s_ctr (strong w ! i)"
    and h: "heap_ok s' (\<lambda>m. strong_count w m + claim (s_ctr (strong w ! i)) m) (weak_count w)"
    by simp_all
  show ?thesis
    unfolding w'
  proof (rule world_okI [OF h])
    show "(\<lambda>m. strong_count w m + claim (s_ctr (strong w ! i)) m) = handles_on s_ctr (strong w @ [p])"
      by (simp add: handles_on_append strong_count_def c)
    show "weak_count w = handles_on w_ctr (weak w)"
      by (simp add: weak_count_def)
  qed (use ok c world_ok_strong [OF ok i] in \<open>auto simp: world_ok_def\<close>)
qed

lemma step_Strong_move:
  assumes ok: "world_ok w" and st: "step T w (Strong_move i) = Inr w'"
  shows "world_ok w'"
proof -
  from st have i: "i < length (strong w)"
    by (auto split: if_splits)
  let ?h = "strong w ! i"
  from st i have w': "w' = \<lparr>store = store w,
      strong = (strong w)[i := ?h\<lparr>s_object := None, s_ctr := None\<rparr>]
        @ [shared_ptr_null\<lparr>s_object := s_object ?h, s_ctr := s_ctr ?h\<rparr>],
      weak = weak w\<rparr>"
    by (auto simp: shared_ptr_move_def shared_ptr_swap_def shared_ptr_null_def)
  show ?thesis
    unfolding w'
  proof (rule world_okI [OF world_ok_heap [OF ok]])
    show "strong_count w = handles_on s_ctr ((strong w)[i := ?h\<lparr>s_object := None, s_ctr := None\<rparr>]
        @ [shared_ptr_null\<lparr>s_object := s_object ?h, s_ctr := s_ctr ?h\<rparr>])"
      using strong_le [OF i]
      by (simp add: handles_on_append handles_on_update [OF i] strong_count_def fun_eq_iff)
    show "weak_count w = handles_on w_ctr (weak w)"
      by (simp add: weak_count_def)
  next
    fix h assume "h \<in> set ((strong w)[i := ?h\<lparr>s_object := None, s_ctr := None\<rparr>]
        @ [shared_ptr_null\<lparr>s_object := s_object ?h, s_ctr := s_ctr ?h\<rparr>])"
    then show "on_object (s_ctr h)"
      using ok world_ok_strong [OF ok i]
      by (auto simp: world_ok_def dest!: set_update_subset_insert [THEN subsetD])
  qed (use ok in \<open>auto simp: world_ok_def\<close>)
qed

lemma step_Strong_destroy:
  assumes ok: "world_ok w" and st: "step T w (Strong_destroy i) = Inr w'"
  shows "world_ok w'"
proof -
  from st have i: "i < length (strong w)"
    by (auto split: if_splits)
  with st obtain s' where d: "shared_ptr_destroy (store w) (strong w ! i) = Inr s'"
    and w': "w' = \<lparr>store = s', strong = remove_nth i (strong w), weak = weak w\<rparr>"
    by (auto split: sum.splits)
  note h = heap_ok_destroy [OF world_ok_heap [OF ok] world_ok_strong [OF ok i] strong_le [OF i] d]
  show ?thesis
    unfolding w'
  proof (rule world_okI [OF h])
    show "(\<lambda>m. strong_count w m - claim (s_ctr (strong w ! i)) m) = handles_on s_ctr (remove_nth i (strong w))"
      by (simp add: handles_on_remove [OF i] strong_count_def)
    show "weak_count w = handles_on w_ctr (weak w)"
      by (simp add: weak_count_def)
  qed (use ok in \<open>auto simp: world_ok_def dest: set_remove_nth [THEN subsetD]\<close>)
qed

lemma step_Strong_assign:
  assumes ok: "world_ok w" and st: "step T w (Strong_assign i j) = Inr w'"
  shows "world_ok w'"
proof -
  from st have i: "i < length (strong w)" and j: "j < length (strong w)"
    by (auto split: if_splits)
  with st obtain other s1 this' s2
    where cp: "shared_ptr_copy (store w) (strong w ! j) = Inr (other, s1)"
      and a: "shared_ptr_assign s1 (strong w ! i) other = Inr (this', s2)"
      and w': "w' = \<lparr>store = s2, strong = (strong w)[i := this'], weak = weak w\<rparr>"
    by (auto split: sum.splits)
  let ?ci = "s_ctr (strong w ! i)" and ?cj = "s_ctr (strong w ! j)"
  from heap_ok_copy [OF world_ok_heap [OF ok] world_ok_strong [OF ok j] strong_le [OF j] cp]
  have c: "s_ctr other = ?cj"
    and h1: "heap_ok s1 (\<lambda>m. strong_count w m + claim ?cj m) (weak_count w)"
    by simp_all
  have le1: "\<And>m. claim ?ci m \<le> strong_count w m + claim ?cj m"
    using strong_le [OF i] by (simp add: trans_le_add1)
  from heap_ok_assign [OF h1 world_ok_strong [OF ok i] le1 a]
  have c': "s_ctr this' = s_ctr other"
    and h2: "heap_ok s2 (\<lambda>m. strong_count w m + claim ?cj m - claim ?ci m) (weak_count w)"
    by simp_all
  show ?thesis
    unfolding w'
  proof (rule world_okI [OF h2])
    show "(\<lambda>m. strong_count w m + claim ?cj m - claim ?ci m) = handles_on s_ctr ((strong w)[i := this'])"
      using strong_le [OF i]
      by (simp add: handles_on_update [OF i] strong_count_def c c' fun_eq_iff)
    show "weak_count w = handles_on w_ctr (weak w)"
      by (simp add: weak_count_def)
  next
    fix h assume "h \<in> set ((strong w)[i := this'])"
    then show "on_object (s_ctr h)"
      using ok world_ok_strong [OF ok j] c c'
      by (auto simp: world_ok_def dest!: set_update_subset_insert [THEN subsetD])
  qed (use ok in \<open>auto simp: world_ok_def\<close>)
qed

lemma step_Strong_move_assign:
  assumes ok: "world_ok w" and st: "step T w (Strong_move_assign i j) = Inr w'"
  shows "world_ok w'"
proof -
  from st have i: "i < length (strong w)" and j: "j < length (strong w)"
    by (auto split: if_splits)
  let ?hj = "strong w ! j"
  let ?xj = "?hj\<lparr>s_object := None, s_ctr := None\<rparr>"
  let ?other = "shared_ptr_null\<lparr>s_object := s_object ?hj, s_ctr := s_ctr ?hj\<rparr>"
  let ?xs1 = "(strong w)[j := ?xj]"
  have mv: "shared_ptr_move ?hj = (?other, ?xj)"
    by (simp add: shared_ptr_move_def shared_ptr_swap_def shared_ptr_null_def)
  with st i j obtain this' s'
    where a: "shared_ptr_assign (store w) (?xs1 ! i) ?other = Inr (this', s')"
      and w': "w' = \<lparr>store = s', strong = ?xs1[i := this'], weak = weak w\<rparr>"
    by (auto split: sum.splits)
  have i1: "i < length ?xs1" using i by simp
  let ?c1 = "s_ctr (?xs1 ! i)"
  have n1: "handles_on s_ctr ?xs1 = (\<lambda>m. strong_count w m - claim (s_ctr ?hj) m)"
    by (simp add: handles_on_update [OF j] strong_count_def)
  have le1: "\<And>m. claim ?c1 m \<le> strong_count w m - claim (s_ctr ?hj) m"
    using handles_on_nth_le [OF i1, of s_ctr] by (simp add: n1)
  then have le: "\<And>m. claim ?c1 m \<le> strong_count w m"
    using diff_le_self le_trans by blast
  have obj1: "on_object ?c1"
    using world_ok_strong [OF ok i] i j by (cases "i = j") simp_all
  from heap_ok_assign [OF world_ok_heap [OF ok] obj1 le a]
  have c': "s_ctr this' = s_ctr ?hj"
    and h: "heap_ok s' (\<lambda>m. strong_count w m - claim ?c1 m) (weak_count w)"
    by simp_all
  show ?thesis
    unfolding w'
  proof (rule world_okI [OF h])
    have "strong_count w m - claim ?c1 m
        = strong_count w m - claim (s_ctr ?hj) m - claim ?c1 m + claim (s_ctr ?hj) m" for m
      using le1 [of m] strong_le [OF j, of m] by arith
    then show "(\<lambda>m. strong_count w m - claim ?c1 m) = handles_on s_ctr (?xs1[i := this'])"
      by (simp add: handles_on_update [OF i1] n1 c' fun_eq_iff)
    show "weak_count w = handles_on w_ctr (weak w)"
      by (simp add: weak_count_def)
  next
    fix h assume "h \<in> set (?xs1[i := this'])"
    then have "h = this' \<or> h = ?xj \<or> h \<in> set (strong w)"
      by (auto dest!: set_update_subset_insert [THEN subsetD])
    then show "on_object (s_ctr h)"
      using ok world_ok_strong [OF ok j] c'
      by (auto simp: world_ok_def)
  qed (use ok in \<open>auto simp: world_ok_def\<close>)
qed

lemma step_Weak_null:
  assumes ok: "world_ok w" and st: "step T w Weak_null = Inr w'"
  shows "world_ok w'"
proof -
  from st have w': "w' = \<lparr>store = store w, strong = strong w, weak = weak w @ [weak_ptr_null]\<rparr>"
    by auto
  show ?thesis
    unfolding w'
  proof (rule world_okI [OF world_ok_heap [OF ok]])
    show "weak_count w = handles_on w_ctr (weak w @ [weak_ptr_null])"
      by (simp add: handles_on_append weak_count_def weak_ptr_null_def)
    show "strong_count w = handles_on s_ctr (strong w)"
      by (simp add: strong_count_def)
  qed (use ok in \<open>auto simp: world_ok_def weak_ptr_null_def\<close>)
qed

lemma step_Weak_from_strong:
  assumes ok: "world_ok w" and st: "step T w (Weak_from_strong i) = Inr w'"
  shows "world_ok w'"
proof -
  from st have i: "i < length (strong w)"
    by (auto split: if_splits)
  with st obtain p s' where mk: "weak_ptr_from_shared (store w) (strong w ! i) = Inr (p, s')"
    and w': "w' = \<lparr>store = s', strong = strong w, weak = weak w @ [p]\<rparr>"
    by (auto split: sum.splits)
  from heap_ok_weak_from_shared [OF world_ok_heap [OF ok] world_ok_strong [OF ok i] strong_le [OF i] mk]
  have c: "w_ctr p = s_ctr (strong w ! i)"
    and h: "heap_ok s' (strong_count w) (\<lambda>m. weak_count w m + claim (s_ctr (strong w ! i)) m)"
    by simp_all
  show ?thesis
    unfolding w'
  proof (rule world_okI [OF h])
    show "(\<lambda>m. weak_count w m + claim (s_ctr (strong w ! i)) m) = handles_on w_ctr (weak w @ [p])"
      by (simp add: handles_on_append weak_count_def c)
    show "strong_count w = handles_on s_ctr (strong w)"
      by (simp add: strong_count_def)
  qed (use ok c world_ok_strong [OF ok i] in \<open>auto simp: world_ok_def\<close>)
qed

lemma step_Weak_move:
  assumes ok: "world_ok w" and st: "step T w (Weak_move k) = Inr w'"
  shows "world_ok w'"
proof -
  from st have k: "k < length (weak w)"
    by (auto split: if_splits)
  let ?h = "weak w ! k"
  from st k have w': "w' = \<lparr>store = store w, strong = strong w,
      weak = (weak w)[k := ?h\<lparr>w_object := None, w_ctr := None\<rparr>]
        @ [weak_ptr_null\<lparr>w_object := w_object ?h, w_ctr := w_ctr ?h\<rparr>]\<rparr>"
    by (auto simp: weak_ptr_move_def weak_ptr_swap_def weak_ptr_null_def)
  show ?thesis
    unfolding w'
  proof (rule world_okI [OF world_ok_heap [OF ok]])
    show "weak_count w = handles_on w_ctr ((weak w)[k := ?h\<lparr>w_object := None, w_ctr := None\<rparr>]
        @ [weak_ptr_null\<lparr>w_object := w_object ?h, w_ctr := w_ctr ?h\<rparr>])"
      using weak_le [OF k]
      by (simp add: handles_on_append handles_on_update [OF k] weak_count_def fun_eq_iff)
    show "strong_count w = handles_on s_ctr (strong w)"
      by (simp add: strong_count_def)
  next
    fix x assume "x \<in> set ((weak w)[k := ?h\<lparr>w_object := None, w_ctr := None\<rparr>]
        @ [weak_ptr_null\<lparr>w_object := w_object ?h, w_ctr := w_ctr ?h\<rparr>])"
    then show "on_object (w_ctr x)"
      using ok world_ok_weak [OF ok k]
      by (auto simp: world_ok_def dest!: set_update_subset_insert [THEN subsetD])
  qed (use ok in \<open>auto simp: world_ok_def\<close>)
qed

lemma step_Weak_move_assign:
  assumes ok: "world_ok w" and st: "step T w (Weak_move_assign k l) = Inr w'"
  shows "world_ok w'"
proof -
  from st have k: "k < length (weak w)" and l: "l < length (weak w)"
    by (auto split: if_splits)
  let ?hl = "weak w ! l"
  let ?xl = "?hl\<lparr>w_object := None, w_ctr := None\<rparr>"
  let ?other = "weak_ptr_null\<lparr>w_object := w_object ?hl, w_ctr := w_ctr ?hl\<rparr>"
  let ?xs1 = "(weak w)[l := ?xl]"
  have mv: "weak_ptr_move ?hl = (?other, ?xl)"
    by (simp add: weak_ptr_move_def weak_ptr_swap_def weak_ptr_null_def)
  with st k l obtain this' s'
    where a: "weak_ptr_assign (store w) (?xs1 ! k) ?other = Inr (this', s')"
      and w': "w' = \<lparr>store = s', strong = strong w, weak = ?xs1[k := this']\<rparr>"
    by (auto split: sum.splits)
  have k1: "k < length ?xs1" using k by simp
  let ?c1 = "w_ctr (?xs1 ! k)"
  have n1: "handles_on w_ctr ?xs1 = (\<lambda>m. weak_count w m - claim (w_ctr ?hl) m)"
    by (simp add: handles_on_update [OF l] weak_count_def)
  have le1: "\<And>m. claim ?c1 m \<le> weak_count w m - claim (w_ctr ?hl) m"
    using handles_on_nth_le [OF k1, of w_ctr] by (simp add: n1)
  then have le: "\<And>m. claim ?c1 m \<le> weak_count w m"
    using diff_le_self le_trans by blast
  have obj1: "on_object ?c1"
    using world_ok_weak [OF ok k] k l by (cases "k = l") simp_all
  from heap_ok_weak_assign [OF world_ok_heap [OF ok] obj1 le a]
  have c': "w_ctr this' = w_ctr ?hl"
    and h: "heap_ok s' (strong_count w) (\<lambda>m. weak_count w m - claim ?c1 m)"
    by simp_all
  show ?thesis
    unfolding w'
  proof (rule world_okI [OF h])
    have "weak_count w m - claim ?c1 m
        = weak_count w m - claim (w_ctr ?hl) m - claim ?c1 m + claim (w_ctr ?hl) m" for m
      using le1 [of m] weak_le [OF l, of m] by arith
    then show "(\<lambda>m. weak_count w m - claim ?c1 m) = handles_on w_ctr (?xs1[k := this'])"
      by (simp add: handles_on_update [OF k1] n1 c' fun_eq_iff)
    show "strong_count w = handles_on s_ctr (strong w)"
      by (simp add: strong_count_def)
  next
    fix x assume "x \<in> set (?xs1[k := this'])"
    then have "x = this' \<or> x = ?xl \<or> x \<in> set (weak w)"
      by (auto dest!: set_update_subset_insert [THEN subsetD])
    then show "on_object (w_ctr x)"
      using ok world_ok_weak [OF ok l] c'
      by (auto simp: world_ok_def)
  qed (use ok in \<open>auto simp: world_ok_def\<close>)
qed

lemma step_Weak_destroy:
  assumes ok: "world_ok w" and st: "step T w (Weak_destroy k) = Inr w'"
  shows "world_ok w'"
proof -
  from st have k: "k < length (weak w)"
    by (auto split: if_splits)
  with st obtain s' where d: "weak_ptr_destroy (store w) (weak w ! k) = Inr s'"
    and w': "w' = \<lparr>store = s', strong = strong w, weak = remove_nth k (weak w)\<rparr>"
    by (auto split: sum.splits)
  note h = heap_ok_weak_destroy [OF world_ok_heap [OF ok] world_ok_weak [OF ok k] weak_le [OF k] d]
  show ?thesis
    unfolding w'
  proof (rule world_okI [OF h])
    show "(\<lambda>m. weak_count w m - claim (w_ctr (weak w ! k)) m) = handles_on w_ctr (remove_nth k (weak w))"
      by (simp add: handles_on_remove [OF k] weak_count_def)
    show "strong_count w = handles_on s_ctr (strong w)"
      by (simp add: strong_count_def)
  qed (use ok in \<open>auto simp: world_ok_def dest: set_remove_nth [THEN subsetD]\<close>)
qed

lemma step_Lock:
  assumes ok: "world_ok w" and st: "step T w (Lock k) = Inr w'"
  shows "world_ok w'"
proof -
  from st have k: "k < length (weak w)"
    by (auto split: if_splits)
  with st obtain p s' where l: "lock (store w) (weak w ! k) = Inr (p, s')"
    and w': "w' = \<lparr>store = s', strong = strong w @ [p], weak = weak w\<rparr>"
    by (auto split: sum.splits)
  from heap_ok_lock [OF world_ok_heap [OF ok] world_ok_weak [OF ok k] weak_le [OF k] l]
  have obj: "on_object (s_ctr p)"
    and h: "heap_ok s' (\<lambda>m. strong_count w m + claim (s_ctr p) m) (weak_count w)"
    by simp_all
  show ?thesis
    unfolding w'
  proof (rule world_okI [OF h])
    show "(\<lambda>m. strong_count w m + claim (s_ctr p) m) = handles_on s_ctr (strong w @ [p])"
      by (simp add: handles_on_append strong_count_def)
    show "weak_count w = handles_on w_ctr (weak w)"
      by (simp add: weak_count_def)
  qed (use ok obj in \<open>auto simp: world_ok_def\<close>)
qed

lemma step_world_ok: "world_ok w \<Longrightarrow> step T w x = Inr w' \<Longrightarrow> world_ok w'"
  by (cases x)
    (blast intro: step_Make step_Strong_null step_Strong_copy step_Strong_move
      step_Strong_assign step_Strong_move_assign step_Strong_destroy step_Weak_null
      step_Weak_from_strong step_Weak_move step_Weak_move_assign step_Weak_destroy step_Lock)+

lemma run_world_ok: "world_ok w \<Longrightarrow> run T xs w = Inr w' \<Longrightarrow> world_ok w'"
proof (induction xs arbitrary: w)
  case Nil
  then show ?case by simp
next
  case (Cons x xs)
  from Cons.prems(2) obtain w1 where s: "step T w x = Inr w1" and r: "run T xs w1 = Inr w'"
    by (auto split: sum.splits)
  from Cons.IH [OF step_world_ok [OF Cons.prems(1) s] r] show ?case .
qed


subsection \<open>The claim\<close>

lemma step_make_copies_world: "step Suc init_world (Make 6) = Inr (copies_world 0)"
  by (simp add: init_world_def copies_world_def make_shared_def new_meta_object_def Let_def
      counter_adopt_def construct_def memory_ctr_def object_ctr_def meta_get_def
      shared_ptr_adopt_def log_event_def)

lemma step_copy_copies_world:
  assumes "Suc j < 2 ^ 32"
  shows "step T (copies_world j) (Strong_copy 0) = Inr (copies_world (Suc j))"
proof -
  have nz: "(of_nat (Suc j) :: 32 word) \<noteq> 0"
    using assms by (intro of_nat_neq_0) simp_all
  have "replicate j (Ev_fetch_add (0 :: nat, dispose_object)) @ [Ev_fetch_add (0, dispose_object)]
      = replicate (Suc j) (Ev_fetch_add (0, dispose_object))"
    by (simp add: replicate_append_same)
  moreover have "replicate (Suc j) \<lparr>s_object = Some (0 :: nat), s_ctr = Some (0 :: nat, dispose_object)\<rparr>
      @ [\<lparr>s_object = Some 0, s_ctr = Some (0, dispose_object)\<rparr>]
      = replicate (Suc (Suc j)) \<lparr>s_object = Some 0, s_ctr = Some (0, dispose_object)\<rparr>"
    by (simp add: replicate_append_same)
  ultimately show ?thesis
    using nz
    by (simp add: copies_world_def shared_ptr_copy_def increment_def get_ctr_def base_of_def
        put_ctr_def set_base_def log_event_def Let_def add.commute del: replicate.simps)
qed

lemma run_copies_world:
  "j + n < 2 ^ 32 \<Longrightarrow>
   run T (replicate n (Strong_copy 0)) (copies_world j) = Inr (copies_world (j + n))"
proof (induction n arbitrary: j)
  case 0
  then show ?case by simp
next
  case (Suc n)
  from Suc.prems have "Suc j < 2 ^ 32" by simp
  from step_copy_copies_world [OF this] Suc.IH [of "Suc j"] Suc.prems show ?case
    by simp
qed

text \<open>
  C3 as stated fails once \<open>2^32\<close> handles are alive: after \<^verbatim>\<open>make_shared\<close> and
  \<open>2^32 - 1\<close> copies, none of which fails an assertion, there are \<open>2^32\<close> live
  \<^verbatim>\<open>shared_ptr\<close>s on the allocation and the count of its object counter is 0.
\<close>

theorem counts_as_stated_counterexample:
  "run Suc (Make 6 # replicate 4294967295 (Strong_copy 0)) init_world
     = Inr (copies_world 4294967295) \<and>
   get_ctr (store (copies_world 4294967295)) (object_ctr 0)
     = Some \<lparr>holder = Some (0, dispose_memory), count = 0\<rparr> \<and>
   strong_count (copies_world 4294967295) 0 = 4294967296"
proof -
  have "run Suc (replicate 4294967295 (Strong_copy 0)) (copies_world 0)
      = Inr (copies_world (0 + 4294967295))"
    by (rule run_copies_world) simp
  then have "run Suc (Make 6 # replicate 4294967295 (Strong_copy 0)) init_world
     = Inr (copies_world 4294967295)"
    by (simp only: run.simps step_make_copies_world sum.case add_0)
  moreover have "get_ctr (store (copies_world 4294967295)) (object_ctr 0)
     = Some \<lparr>holder = Some (0, dispose_memory), count = 0\<rparr>"
    by (simp add: copies_world_def get_ctr_def object_ctr_def base_of_def del: replicate.simps)
  moreover have "strong_count (copies_world 4294967295) 0 = 4294967296"
    by (simp add: copies_world_def strong_count_def handles_on_def object_ctr_def
        del: replicate.simps)
  ultimately show ?thesis by (simp only: simp_thms)
qed


text \<open>
  C3, amended: counts are \<^verbatim>\<open>unsigned int\<close>. In every world reached from the empty one by a
  run, without a failed assertion, of factory calls, constructions of null handles, copies,
  moves, assignments and destructions of \<^verbatim>\<open>shared_ptr\<close>s, constructions of \<^verbatim>\<open>weak_ptr\<close>s from
  \<^verbatim>\<open>shared_ptr\<close>s, moves, move assignments and destructions of \<^verbatim>\<open>weak_ptr\<close>s and calls of
  \<^verbatim>\<open>lock()\<close>, and for every allocation \<open>m\<close> the factory has made: there are at most \<open>2^32\<close>
  live \<^verbatim>\<open>shared_ptr\<close>s on \<open>m\<close>, and at most \<open>2^32\<close> live \<^verbatim>\<open>weak_ptr\<close>s plus the latent claim (one
  while a \<^verbatim>\<open>shared_ptr\<close> on \<open>m\<close> is alive, none afterwards). If \<open>m\<close> is still allocated, the
  count of its object counter is the number of live \<^verbatim>\<open>shared_ptr\<close>s as a 32-bit word, and
  equal to it below \<open>2^32\<close>; the count of its memory counter is the number of live
  \<^verbatim>\<open>weak_ptr\<close>s plus the latent claim as a 32-bit word, and equal to it below \<open>2^32\<close>; some
  handle is alive; the value is constructed and not destructed exactly as long as a
  \<^verbatim>\<open>shared_ptr\<close> is alive. If \<open>m\<close> is no longer allocated, no handle on it is alive, and the
  value was destructed before the allocation was deleted, each once.
\<close>

theorem counts_match_handles:
  assumes "run T ops init_world = Inr w" and "m < next_addr (store w)"
  shows "strong_count w m \<le> 2 ^ 32 \<and>
     weak_count w m + (if 0 < strong_count w m then 1 else 0) \<le> 2 ^ 32 \<and>
     (case fmlookup (cells (store w)) m of
        None \<Rightarrow>
          strong_count w m = 0 \<and> weak_count w m = 0 \<and>
          lifecycle m (trace (store w)) = [Ev_new m, Ev_construct m, Ev_destruct m, Ev_delete m]
      | Some mo \<Rightarrow>
          count (object_base mo) = of_nat (strong_count w m) \<and>
          count (memory_base mo)
            = of_nat (weak_count w m + (if 0 < strong_count w m then 1 else 0)) \<and>
          (strong_count w m < 2 ^ 32 \<longrightarrow> unat (count (object_base mo)) = strong_count w m) \<and>
          (weak_count w m + (if 0 < strong_count w m then 1 else 0) < 2 ^ 32 \<longrightarrow>
             unat (count (memory_base mo))
               = weak_count w m + (if 0 < strong_count w m then 1 else 0)) \<and>
          0 < strong_count w m + weak_count w m \<and>
          (if 0 < strong_count w m
           then (\<exists>v. bx mo = Constructed v) \<and>
                lifecycle m (trace (store w)) = [Ev_new m, Ev_construct m]
           else bx mo = Destructed \<and>
                lifecycle m (trace (store w)) = [Ev_new m, Ev_construct m, Ev_destruct m]))"
proof -
  have "world_ok w"
    using world_ok_init assms(1) by (rule run_world_ok)
  then have st: "cell_st (store w) m (strong_count w m) (weak_count w m + latent (strong_count w m))"
    using assms(2) by (simp add: world_ok_def heap_ok_def)
  have lat: "latent (strong_count w m) = (if 0 < strong_count w m then 1 else 0)"
    by (simp add: latent_def)
  have u: "unat (of_nat n :: 32 word) = n" if "n < 2 ^ 32" for n
    using that by (simp add: unat_of_nat)
  show ?thesis
  proof (cases "fmlookup (cells (store w)) m")
    case None
    with st show ?thesis
      by (simp add: cell_st_def lat split: if_splits)
  next
    case (Some mo)
    with st have a: "strong_count w m \<le> 2 ^ 32"
      and b: "weak_count w m + (if 0 < strong_count w m then 1 else 0) \<le> 2 ^ 32"
      and c: "count (object_base mo) = of_nat (strong_count w m)"
      and d: "count (memory_base mo) = of_nat (weak_count w m + (if 0 < strong_count w m then 1 else 0))"
      and e: "if 0 < strong_count w m
           then (\<exists>v. bx mo = Constructed v) \<and>
                lifecycle m (trace (store w)) = [Ev_new m, Ev_construct m]
           else bx mo = Destructed \<and>
                lifecycle m (trace (store w)) = [Ev_new m, Ev_construct m, Ev_destruct m]"
      and f: "0 < weak_count w m + (if 0 < strong_count w m then 1 else 0)"
      unfolding cell_st_def lat by simp_all
    from f have g: "0 < strong_count w m + weak_count w m"
      by (simp split: if_splits)
    have c': "strong_count w m < 2 ^ 32 \<longrightarrow> unat (count (object_base mo)) = strong_count w m"
      unfolding c using u by blast
    have d': "weak_count w m + (if 0 < strong_count w m then 1 else 0) < 2 ^ 32 \<longrightarrow>
             unat (count (memory_base mo))
               = weak_count w m + (if 0 < strong_count w m then 1 else 0)"
      unfolding d using u by blast
    from a b c d c' d' g e show ?thesis
      unfolding Some option.case by blast
  qed
qed


lemma run_example:
  "run Suc [Make 6, Weak_from_strong 0, Strong_destroy 0] init_world
     = Inr \<lparr>store = dead_object_heap, strong = [],
            weak = [\<lparr>w_object = Some 0, w_ctr = Some (0, dispose_object)\<rparr>]\<rparr>"
  by (simp add: init_world_def make_shared_def new_meta_object_def Let_def
      counter_adopt_def construct_def memory_ctr_def object_ctr_def meta_get_def
      shared_ptr_adopt_def log_event_def weak_ptr_from_shared_def shared_ptr_get_def
      shared_ptr_ctr_def holder_of_def get_ctr_def base_of_def increment_def put_ctr_def
      set_base_def shared_ptr_destroy_def decrement.simps dispose_def dispose_object_impl_def
      destruct_def remove_nth_def dead_object_heap_def)

text \<open>
  C3 (amended), at a concrete run: \<^verbatim>\<open>make_shared\<close>, a \<^verbatim>\<open>weak_ptr\<close> from the handle, the
  destruction of the handle. The value is destructed, the allocation is kept.
\<close>

theorem counts_match_handles_witness:
  "run Suc [Make 6, Weak_from_strong 0, Strong_destroy 0] init_world
     = Inr \<lparr>store = dead_object_heap, strong = [],
            weak = [\<lparr>w_object = Some 0, w_ctr = Some (0, dispose_object)\<rparr>]\<rparr> \<and>
   0 < next_addr dead_object_heap \<and>
   fmlookup (cells dead_object_heap) 0
     = Some \<lparr>memory_base = \<lparr>holder = None, count = 1\<rparr>,
             object_base = \<lparr>holder = Some (0, dispose_memory), count = 0\<rparr>,
             bx = Destructed\<rparr> \<and>
   lifecycle 0 (trace dead_object_heap) = [Ev_new 0, Ev_construct 0, Ev_destruct 0]"
proof -
  have lt: "0 < next_addr (store \<lparr>store = dead_object_heap, strong = [],
            weak = [\<lparr>w_object = Some 0, w_ctr = Some (0, dispose_object)\<rparr>]\<rparr>)"
    by (simp add: dead_object_heap_def)
  have lk: "fmlookup (cells dead_object_heap) 0
     = Some \<lparr>memory_base = \<lparr>holder = None, count = 1\<rparr>,
             object_base = \<lparr>holder = Some (0, dispose_memory), count = 0\<rparr>,
             bx = Destructed\<rparr>"
    by (simp add: dead_object_heap_def)
  from counts_match_handles [OF run_example lt]
  have "lifecycle 0 (trace dead_object_heap) = [Ev_new 0, Ev_construct 0, Ev_destruct 0]"
    by (simp add: lk strong_count_def)
  with run_example lt lk show ?thesis
    by simp
qed


end
